theory Spec2Isabelle
  imports Complex_Main "HOL-Library.Multiset" "HOL-Library.Sublist" "HOL-Library.AList"
begin

section \<open>JavaScript values, truthiness and string conversion\<close>

text \<open>
  The hashing functions of \<^verbatim>\<open>svg.ts\<close> build arrays that mix booleans, strings, numbers and
  \<^verbatim>\<open>undefined\<close>, drop the falsy entries with \<^verbatim>\<open>filter(x => x)\<close> and glue the rest with
  \<^verbatim>\<open>join\<close>. The values are modelled by a small datatype. Strings are HOL strings (one
  \<^typ>\<open>char\<close> per code unit below 256). The numeric fields of a shape (piece scale, modifier
  line width) range over the integers, which JavaScript prints as plain decimal numerals.
\<close>

datatype jsval = JUndefined | JBool bool | JStr string | JNum int

fun truthy :: "jsval \<Rightarrow> bool" where
  "truthy JUndefined = False"
| "truthy (JBool b) = b"
| "truthy (JStr s) = (s \<noteq> [])"
| "truthy (JNum n) = (n \<noteq> 0)"

definition digit_char :: "nat \<Rightarrow> char" where
  "digit_char d = ''0123456789'' ! d"

fun show_nat :: "nat \<Rightarrow> string" where
  "show_nat n = (if n < 10 then [digit_char n] else show_nat (n div 10) @ [digit_char (n mod 10)])"

declare show_nat.simps [simp del]

definition show_int :: "int \<Rightarrow> string" where
  "show_int i = (if i < 0 then CHR ''-'' # show_nat (nat (- i)) else show_nat (nat i))"

text \<open>\<^verbatim>\<open>String(x)\<close> as \<^verbatim>\<open>Array.prototype.join\<close> applies it: \<^verbatim>\<open>undefined\<close> prints as the empty string.\<close>

fun toString :: "jsval \<Rightarrow> string" where
  "toString JUndefined = []"
| "toString (JBool b) = (if b then ''true'' else ''false'')"
| "toString (JStr s) = s"
| "toString (JNum n) = show_int n"

fun join :: "string \<Rightarrow> jsval list \<Rightarrow> string" where
  "join sep [] = []"
| "join sep [x] = toString x"
| "join sep (x # y # ys) = toString x @ sep @ join sep (y # ys)"

text \<open>An optional string field (\<^verbatim>\<open>dest?: cg.Key\<close>, \<^verbatim>\<open>brush?: string\<close>, ...) as a JavaScript value.\<close>

definition optStr :: "string option \<Rightarrow> jsval" where
  "optStr x = (case x of None \<Rightarrow> JUndefined | Some s \<Rightarrow> JStr s)"

definition optNum :: "int option \<Rightarrow> jsval" where
  "optNum x = (case x of None \<Rightarrow> JUndefined | Some n \<Rightarrow> JNum n)"

text \<open>The value of an optional string field when it is truthy (present and not empty).\<close>

definition ifTruthy :: "string option \<Rightarrow> string option" where
  "ifTruthy x = (case x of None \<Rightarrow> None | Some s \<Rightarrow> if s \<noteq> [] then Some s else None)"

section \<open>Data model\<close>

text \<open>
  The shapes, brushes and squares are declared in \<^verbatim>\<open>draw.ts\<close> and \<^verbatim>\<open>types.ts\<close>; the records have
  the fields that \<^verbatim>\<open>svg.ts\<close> uses, an optional field as an \<open>option\<close>. A square name
  (\<^verbatim>\<open>cg.Key\<close>), a role and a colour are strings.
\<close>

type_synonym Key = string
type_synonym Hash = string
type_synonym Pos = "int \<times> int"
type_synonym NumberPair = "int \<times> int"

record DrawShapePiece =
  p_role :: string
  p_color :: string
  p_scale :: "int option"

record DrawModifiers =
  m_lineWidth :: "int option"

record DrawShape =
  orig :: Key
  dest :: "Key option"
  brush :: "string option"
  modifiers :: "DrawModifiers option"
  piece :: "DrawShapePiece option"
  customSvg :: "string option"

record DrawBrush =
  b_key :: string
  b_color :: string
  b_opacity :: real
  b_lineWidth :: real

text \<open>
  The shape being drawn (\<^verbatim>\<open>DrawCurrent\<close> of \<^verbatim>\<open>draw.ts\<close>, whose declaration is not among the
  sources at hand). \<^verbatim>\<open>renderSvg\<close> reads its \<^verbatim>\<open>mouseSq\<close> and otherwise uses it as a
  \<^verbatim>\<open>DrawShape\<close> (\<^verbatim>\<open>curD as DrawShape\<close>); the record keeps these two readings.
\<close>

record DrawCurrent =
  asDrawShape :: DrawShape
  c_mouseSq :: "Key option"

record Shape =
  shape :: DrawShape
  current :: bool
  hash :: Hash

type_synonym DrawBrushes = "string \<rightharpoonup> DrawBrush"
type_synonym ArrowDests = "Key \<rightharpoonup> nat"

text \<open>
  Of the drawable and of the state, the fields that \<^verbatim>\<open>svg.ts\<close> reads or writes;
  \<^verbatim>\<open>drawable.pieces.baseUrl\<close> is the field \<open>baseUrl\<close>. A field that clashes with another
  name of the development carries a prefix.
\<close>

record Drawable =
  shapes :: "DrawShape list"
  autoShapes :: "DrawShape list"
  d_current :: "DrawCurrent option"
  brushes :: DrawBrushes
  prevSvgHash :: "string option"
  baseUrl :: string

record State =
  drawable :: Drawable
  orientation :: string

section \<open>Hashing\<close>

text \<open>\<^verbatim>\<open>arrowDests.get(k) || 0\<close>\<close>

definition getOr0 :: "ArrowDests \<Rightarrow> Key \<Rightarrow> nat" where
  "getOr0 arrowDests k = (case arrowDests k of None \<Rightarrow> 0 | Some n \<Rightarrow> n)"

definition pieceHash :: "DrawShapePiece \<Rightarrow> Hash" where
  "pieceHash p = join '','' (filter truthy [JStr (p_color p), JStr (p_role p), optNum (p_scale p)])"

text \<open>\<^verbatim>\<open>'' + (m.lineWidth || '')\<close>\<close>

definition modifiersHash :: "DrawModifiers \<Rightarrow> Hash" where
  "modifiersHash m = [] @ toString (if truthy (optNum (m_lineWidth m)) then optNum (m_lineWidth m) else JStr [])"

text \<open>
  The bit operations of \<^verbatim>\<open>customSvgHash\<close> on JavaScript numbers: \<^verbatim>\<open>x << n\<close> converts \<^verbatim>\<open>x\<close>
  to a signed 32-bit integer, shifts and reads the result as signed 32 bits again;
  \<^verbatim>\<open>x >>> 0\<close> reduces \<^verbatim>\<open>x\<close> to an unsigned 32-bit integer. The subtraction and addition in
  between are exact (all values stay far below \<open>2 ^ 53\<close>).
\<close>

definition toInt32 :: "int \<Rightarrow> int" where
  "toInt32 x = (x + 2 ^ 31) mod 2 ^ 32 - 2 ^ 31"

definition toUint32 :: "int \<Rightarrow> int" where
  "toUint32 x = x mod 2 ^ 32"

definition shiftLeft :: "int \<Rightarrow> nat \<Rightarrow> int" where
  "shiftLeft x n = toInt32 (toInt32 x * 2 ^ n)"

definition charCode :: "char \<Rightarrow> int" where
  "charCode c = of_char c"

fun rollingHash :: "int \<Rightarrow> string \<Rightarrow> int" where
  "rollingHash h [] = h"
| "rollingHash h (c # cs) = rollingHash (toUint32 (shiftLeft h 5 - h + charCode c)) cs"

definition customSvgHash :: "string \<Rightarrow> Hash" where
  "customSvgHash s = ''custom-'' @ show_int (rollingHash 0 s)"

text \<open>
  The array of \<^verbatim>\<open>shapeHash\<close> before \<^verbatim>\<open>filter\<close> and \<^verbatim>\<open>join\<close>. \<^verbatim>\<open>a && b\<close> is \<^verbatim>\<open>a\<close> when \<^verbatim>\<open>a\<close>
  is falsy and \<^verbatim>\<open>b\<close> otherwise.
\<close>

definition andAlso :: "jsval \<Rightarrow> jsval \<Rightarrow> jsval" where
  "andAlso a b = (if truthy a then b else a)"

definition shapeHashTokens :: "DrawShape \<Rightarrow> ArrowDests \<Rightarrow> bool \<Rightarrow> jsval list" where
  "shapeHashTokens s arrowDests cur =
    [ JBool cur,
      JStr (orig s),
      optStr (dest s),
      optStr (brush s),
      (case dest s of None \<Rightarrow> JUndefined
         | Some k \<Rightarrow> andAlso (JStr k) (JBool (getOr0 arrowDests k > 1))),
      (case piece s of None \<Rightarrow> JUndefined | Some p \<Rightarrow> JStr (pieceHash p)),
      (case modifiers s of None \<Rightarrow> JUndefined | Some m \<Rightarrow> JStr (modifiersHash m)),
      (case customSvg s of None \<Rightarrow> JUndefined
         | Some c \<Rightarrow> andAlso (JStr c) (JStr (customSvgHash c))) ]"

definition shapeHash :: "DrawShape \<Rightarrow> ArrowDests \<Rightarrow> bool \<Rightarrow> Hash" where
  "shapeHash s arrowDests cur = join '','' (filter truthy (shapeHashTokens s arrowDests cur))"

section \<open>Output nodes\<close>

text \<open>
  An SVG element. \<^verbatim>\<open>createElement\<close> makes a new object each time it is called; the model
  numbers the objects in the order of their creation, so that two nodes are the same
  instance exactly when they carry the same number. The two bookkeeping attributes that
  the synchronisers read back, \<^verbatim>\<open>cgHash\<close> and \<^verbatim>\<open>cgKey\<close>, are fields (absent: \<^verbatim>\<open>getAttribute\<close>
  returns \<^verbatim>\<open>null\<close>); the presentation attributes are kept in the order they are set, numbers
  as numbers.
\<close>

datatype attr = AStr string | ANum real

datatype SVGElement = SVGElement
  (ident: nat)
  (tagName: string)
  (attributes: "(string \<times> attr) list")
  (cgHash: "string option")
  (cgKey: "string option")
  (childNodes: "SVGElement list")
  (innerHTML: string)

datatype error = TypeError

definition createElement :: "string \<Rightarrow> nat \<Rightarrow> SVGElement \<times> nat" where
  "createElement tag n = (SVGElement n tag [] None None [] [], Suc n)"

definition setAttribute :: "SVGElement \<Rightarrow> string \<Rightarrow> attr \<Rightarrow> SVGElement" where
  "setAttribute el k v =
    SVGElement (ident el) (tagName el) (AList.update k v (attributes el))
      (cgHash el) (cgKey el) (childNodes el) (innerHTML el)"

definition setAttributes :: "SVGElement \<Rightarrow> (string \<times> attr) list \<Rightarrow> SVGElement" where
  "setAttributes el attrs = foldl (\<lambda>e (k, v). setAttribute e k v) el attrs"

definition setCgHash :: "SVGElement \<Rightarrow> Hash \<Rightarrow> SVGElement" where
  "setCgHash el h =
    SVGElement (ident el) (tagName el) (attributes el) (Some h) (cgKey el) (childNodes el) (innerHTML el)"

definition setCgKey :: "SVGElement \<Rightarrow> string \<Rightarrow> SVGElement" where
  "setCgKey el k =
    SVGElement (ident el) (tagName el) (attributes el) (cgHash el) (Some k) (childNodes el) (innerHTML el)"

definition appendChild :: "SVGElement \<Rightarrow> SVGElement \<Rightarrow> SVGElement" where
  "appendChild el c =
    SVGElement (ident el) (tagName el) (attributes el) (cgHash el) (cgKey el) (childNodes el @ [c]) (innerHTML el)"

definition setInnerHTML :: "SVGElement \<Rightarrow> string \<Rightarrow> SVGElement" where
  "setInnerHTML el h =
    SVGElement (ident el) (tagName el) (attributes el) (cgHash el) (cgKey el) (childNodes el) h"

section \<open>Geometry\<close>

text \<open>
  JavaScript numbers are idealised as reals; \<^verbatim>\<open>Math.atan2\<close> is the angle of the vector
  \<open>(x, y)\<close> in \<open>(-\<pi>, \<pi>]\<close>, and \<open>0\<close> at the origin.
\<close>

definition atan2 :: "real \<Rightarrow> real \<Rightarrow> real" where
  "atan2 y x =
    (if x > 0 then arctan (y / x)
     else if x < 0 then (if y \<ge> 0 then arctan (y / x) + pi else arctan (y / x) - pi)
     else if y > 0 then pi / 2
     else if y < 0 then - pi / 2
     else 0)"

text \<open>\<^verbatim>\<open>Math.round\<close> rounds to the nearest integer, halves upwards.\<close>

definition mathRound :: "real \<Rightarrow> real" where
  "mathRound x = of_int \<lfloor>x + 1 / 2\<rfloor>"

definition orient :: "Pos \<Rightarrow> string \<Rightarrow> Pos" where
  "orient pos color = (if color = ''white'' then pos else (7 - fst pos, 7 - snd pos))"

definition pos2user :: "Pos \<Rightarrow> NumberPair" where
  "pos2user pos = (fst pos, 7 - snd pos)"

definition arrowMargin :: "bool \<Rightarrow> real" where
  "arrowMargin shorten = (if shorten then 20 else 10) / 64"

definition opacity :: "DrawBrush \<Rightarrow> bool \<Rightarrow> real" where
  "opacity br cur = (if b_opacity br \<noteq> 0 then b_opacity br else 1) * (if cur then 0.9 else 1)"

definition lineWidth :: "DrawBrush \<Rightarrow> bool \<Rightarrow> real" where
  "lineWidth br cur =
    ((if b_lineWidth br \<noteq> 0 then b_lineWidth br else 10) * (if cur then 0.85 else 1)) / 64"

definition circleWidth :: "real \<times> real" where
  "circleWidth = (3 / 64, 4 / 64)"

text \<open>
  \<^verbatim>\<open>[base.key, modifiers.lineWidth].filter(x => x).join('')\<close> and
  \<^verbatim>\<open>Math.round(modifiers.lineWidth || base.lineWidth)\<close>
\<close>

definition makeCustomBrush :: "DrawBrush \<Rightarrow> DrawModifiers \<Rightarrow> DrawBrush" where
  "makeCustomBrush base m =
    \<lparr> b_key = join [] (filter truthy [JStr (b_key base), optNum (m_lineWidth m)]),
      b_color = b_color base,
      b_opacity = mathRound (b_opacity base * 10) / 10,
      b_lineWidth = mathRound (case m_lineWidth m of
                        None \<Rightarrow> b_lineWidth base
                      | Some w \<Rightarrow> if w \<noteq> 0 then of_int w else b_lineWidth base) \<rparr>"

section \<open>Rendering one shape\<close>

definition renderCustomSvg :: "string \<Rightarrow> Pos \<Rightarrow> nat \<Rightarrow> SVGElement \<times> nat" where
  "renderCustomSvg custom pos n =
    (let (x, y) = pos2user pos;
         (g0, n1) = createElement ''g'' n;
         g = setAttributes g0
               [(''transform'', AStr (''translate('' @ show_int x @ '','' @ show_int y @ '')''))];
         (svg0, n2) = createElement ''svg'' n1;
         svg = setAttributes svg0
               [(''width'', ANum 1), (''height'', ANum 1), (''viewBox'', AStr ''0 0 100 100'')]
     in (appendChild g (setInnerHTML svg custom), n2))"

definition renderCircle :: "DrawBrush \<Rightarrow> Pos \<Rightarrow> bool \<Rightarrow> nat \<Rightarrow> SVGElement \<times> nat" where
  "renderCircle br pos cur n =
    (let ob = pos2user pos;
         widths = circleWidth;
         radius = 0.5;
         (el, n1) = createElement ''circle'' n
     in (setAttributes el
          [(''stroke'', AStr (b_color br)),
           (''stroke-width'', ANum (if cur then fst widths else snd widths)),
           (''fill'', AStr ''none''),
           (''opacity'', ANum (opacity br cur)),
           (''cx'', ANum (of_int (fst ob))),
           (''cy'', ANum (of_int (snd ob))),
           (''r'', ANum (radius - snd widths / 2))], n1))"

definition renderArrow :: "DrawBrush \<Rightarrow> Pos \<Rightarrow> Pos \<Rightarrow> bool \<Rightarrow> bool \<Rightarrow> nat \<Rightarrow> SVGElement \<times> nat" where
  "renderArrow br origPos destPos cur shorten n =
    (let m = arrowMargin (shorten \<and> \<not> cur);
         a = pos2user origPos;
         b = pos2user destPos;
         dx = of_int (fst b) - of_int (fst a);
         dy = of_int (snd b) - of_int (snd a);
         angle = atan2 dy dx;
         xo = cos angle * m;
         yo = sin angle * m;
         (el, n1) = createElement ''line'' n
     in (setAttributes el
          [(''stroke'', AStr (b_color br)),
           (''stroke-width'', ANum (lineWidth br cur)),
           (''stroke-linecap'', AStr ''round''),
           (''marker-end'', AStr (''url(#arrowhead-'' @ b_key br @ '')'')),
           (''opacity'', ANum (opacity br cur)),
           (''x1'', ANum (of_int (fst a))),
           (''y1'', ANum (of_int (snd a))),
           (''x2'', ANum (of_int (fst b) - xo)),
           (''y2'', ANum (of_int (snd b) - yo))], n1))"

text \<open>\<^verbatim>\<open>toUpperCase\<close> on one character (the ASCII letters; other characters are left as they are).\<close>

definition toUpperCase :: "char \<Rightarrow> char" where
  "toUpperCase c =
    (if (97::nat) \<le> of_char c \<and> of_char c \<le> (122::nat) then char_of (of_char c - (32::nat)) else c)"

text \<open>
  \<^verbatim>\<open>piece.color[0]\<close> of an empty string is \<^verbatim>\<open>undefined\<close>, which the concatenation prints;
  \<^verbatim>\<open>piece.role[0].toUpperCase()\<close> of an empty string throws.
\<close>

definition renderPiece :: "string \<Rightarrow> Pos \<Rightarrow> DrawShapePiece \<Rightarrow> nat \<Rightarrow> error + SVGElement \<times> nat" where
  "renderPiece base pos p n =
    (let ob = pos2user pos;
         c0 = (case p_color p of [] \<Rightarrow> ''undefined'' | c # _ \<Rightarrow> [c])
     in case (if p_role p = ''knight'' then Some CHR ''n''
              else (case p_role p of [] \<Rightarrow> None | r # _ \<Rightarrow> Some r)) of
          None \<Rightarrow> Inl TypeError
        | Some r \<Rightarrow>
           (let name = c0 @ [toUpperCase r];
                (el, n1) = createElement ''image'' n
            in Inr (setAttributes el
                 [(''className'', AStr (p_role p @ '' '' @ p_color p)),
                  (''x'', ANum (of_int (fst ob) - 0.5)),
                  (''y'', ANum (of_int (snd ob) - 0.5)),
                  (''width'', ANum 1),
                  (''height'', ANum 1),
                  (''href'', AStr (base @ name @ ''.svg'')),
                  (''transform'', AStr (''scale('' @ toString
                      (if truthy (optNum (p_scale p)) then optNum (p_scale p) else JNum 1) @ '')'')),
                  (''transform-origin'', AStr (show_int (fst ob) @ '' '' @ show_int (snd ob)))], n1)))"

definition renderMarker :: "DrawBrush \<Rightarrow> nat \<Rightarrow> SVGElement \<times> nat" where
  "renderMarker br n =
    (let (m0, n1) = createElement ''marker'' n;
         marker = setAttributes m0
           [(''id'', AStr (''arrowhead-'' @ b_key br)),
            (''orient'', AStr ''auto''),
            (''markerWidth'', ANum 4),
            (''markerHeight'', ANum 8),
            (''refX'', ANum 2.05),
            (''refY'', ANum 2.01)];
         (p0, n2) = createElement ''path'' n1;
         marker = appendChild marker
           (setAttributes p0 [(''d'', AStr ''M0,0 V4 L3,2 Z''), (''fill'', AStr (b_color br))])
     in (setCgKey marker (b_key br), n2))"

text \<open>
  \<^verbatim>\<open>brushes[shape.brush!]\<close>: the catalog is a map from the names it holds itself to their
  brushes; an absent brush name is looked up as the property \<^verbatim>\<open>"undefined"\<close>. A name that
  the catalog does not have gives \<^verbatim>\<open>undefined\<close>, and reading a field of it throws. The map
  has no entry for the names that a JavaScript object inherits from \<^verbatim>\<open>Object.prototype\<close>
  (\<^verbatim>\<open>constructor\<close>, \<^verbatim>\<open>toString\<close>, ...): on such a name the code reads a value that is no brush
  and goes on. So the map is exact for the names that the catalog holds itself and for
  the names that no object inherits.
\<close>

definition lookupBrush :: "DrawBrushes \<Rightarrow> string option \<Rightarrow> DrawBrush option" where
  "lookupBrush bs b = bs (case b of None \<Rightarrow> ''undefined'' | Some name \<Rightarrow> name)"

text \<open>
  \<^verbatim>\<open>key2pos\<close> (of \<^verbatim>\<open>util.ts\<close>) is a parameter. The element counter is returned unchanged
  when the rendering throws: an element created before the exception is unreachable.
\<close>

definition renderShape ::
  "(Key \<Rightarrow> Pos) \<Rightarrow> State \<Rightarrow> Shape \<Rightarrow> DrawBrushes \<Rightarrow> ArrowDests \<Rightarrow> nat \<Rightarrow> error + SVGElement \<times> nat" where
  "renderShape key2pos state sc bs arrowDests n =
    (let s = shape sc;
         r = (case ifTruthy (customSvg s) of
                Some custom \<Rightarrow>
                  Inr (renderCustomSvg custom (orient (key2pos (orig s)) (orientation state)) n)
              | None \<Rightarrow>
                 (case piece s of
                    Some p \<Rightarrow>
                      renderPiece (baseUrl (drawable state))
                        (orient (key2pos (orig s)) (orientation state)) p n
                  | None \<Rightarrow>
                     (let origPos = orient (key2pos (orig s)) (orientation state)
                      in case ifTruthy (dest s) of
                           Some d \<Rightarrow>
                            (case lookupBrush bs (brush s) of
                               None \<Rightarrow> Inl TypeError
                             | Some b0 \<Rightarrow>
                                (let br = (case modifiers s of
                                             None \<Rightarrow> b0
                                           | Some m \<Rightarrow> makeCustomBrush b0 m)
                                 in Inr (renderArrow br origPos
                                       (orient (key2pos d) (orientation state))
                                       (current sc)
                                       (getOr0 arrowDests d > 1) n)))
                         | None \<Rightarrow>
                            (case lookupBrush bs (brush s) of
                               None \<Rightarrow> Inl TypeError
                             | Some b0 \<Rightarrow> Inr (renderCircle b0 origPos (current sc) n)))))
     in case r of
          Inl e \<Rightarrow> Inl e
        | Inr (el, n1) \<Rightarrow> Inr (setCgHash el (hash sc), n1))"

section \<open>The definitions synchroniser\<close>

text \<open>
  The first loop of \<^verbatim>\<open>syncDefs\<close>. The \<^verbatim>\<open>Map\<close> of brushes keeps its entries in the order
  their keys were first set; setting a key again replaces the value where it stands,
  which is what \<^const>\<open>AList.update\<close> does on an association list.
\<close>

fun collectBrushes ::
  "DrawBrushes \<Rightarrow> Shape list \<Rightarrow> (string \<times> DrawBrush) list \<Rightarrow> error + (string \<times> DrawBrush) list" where
  "collectBrushes bs [] acc = Inr acc"
| "collectBrushes bs (sc # scs) acc =
    (case ifTruthy (dest (shape sc)) of
       None \<Rightarrow> collectBrushes bs scs acc
     | Some d \<Rightarrow>
        (case lookupBrush bs (brush (shape sc)) of
           None \<Rightarrow> Inl TypeError
         | Some b0 \<Rightarrow>
            (let br = (case modifiers (shape sc) of
                         None \<Rightarrow> b0
                       | Some m \<Rightarrow> makeCustomBrush b0 m)
             in collectBrushes bs scs (AList.update (b_key br) br acc))))"

text \<open>The last loop: \<^verbatim>\<open>keysInDom\<close> is read once, before anything is appended.\<close>

fun appendMarkers ::
  "string option list \<Rightarrow> (string \<times> DrawBrush) list \<Rightarrow> SVGElement list \<Rightarrow> nat \<Rightarrow> SVGElement list \<times> nat" where
  "appendMarkers keysInDom [] defsEl n = (defsEl, n)"
| "appendMarkers keysInDom ((k, br) # rest) defsEl n =
    (if Some k \<notin> set keysInDom
     then (let (marker, n1) = renderMarker br n
           in appendMarkers keysInDom rest (defsEl @ [marker]) n1)
     else appendMarkers keysInDom rest defsEl n)"

definition syncDefs ::
  "Drawable \<Rightarrow> Shape list \<Rightarrow> SVGElement list \<Rightarrow> nat \<Rightarrow> error + SVGElement list \<times> nat" where
  "syncDefs d scs defsEl n =
    (case collectBrushes (brushes d) scs [] of
       Inl e \<Rightarrow> Inl e
     | Inr bs \<Rightarrow> Inr (appendMarkers (map cgKey defsEl) bs defsEl n))"

section \<open>The shape synchroniser\<close>

text \<open>
  \<^verbatim>\<open>hashesInDom\<close> maps every target hash to a flag. The scan of the children sets the flag
  of a hash it meets and collects the children whose tag is no target (or is missing).
\<close>

fun scanChildren ::
  "SVGElement list \<Rightarrow> (Hash \<rightharpoonup> bool) \<Rightarrow> SVGElement list \<Rightarrow> (Hash \<rightharpoonup> bool) \<times> SVGElement list" where
  "scanChildren [] hashesInDom toRemove = (hashesInDom, toRemove)"
| "scanChildren (el # els) hashesInDom toRemove =
    (case cgHash el of
       None \<Rightarrow> scanChildren els hashesInDom (toRemove @ [el])
     | Some elHash \<Rightarrow>
        (if hashesInDom elHash \<noteq> None
         then scanChildren els (hashesInDom(elHash \<mapsto> True)) toRemove
         else scanChildren els hashesInDom (toRemove @ [el])))"

definition removeChild :: "SVGElement list \<Rightarrow> SVGElement \<Rightarrow> SVGElement list" where
  "removeChild rootEl el = remove1 el rootEl"

text \<open>
  The insertion loop. A rendering that throws ends the loop; the children appended so
  far stay in the container.
\<close>

fun appendShapes ::
  "(Key \<Rightarrow> Pos) \<Rightarrow> State \<Rightarrow> (Hash \<rightharpoonup> bool) \<Rightarrow> DrawBrushes \<Rightarrow> ArrowDests \<Rightarrow>
     Shape list \<Rightarrow> SVGElement list \<Rightarrow> nat \<Rightarrow> (SVGElement list \<times> nat) \<times> error option" where
  "appendShapes key2pos state hashesInDom bs arrowDests [] rootEl n = ((rootEl, n), None)"
| "appendShapes key2pos state hashesInDom bs arrowDests (sc # scs) rootEl n =
    (if hashesInDom (hash sc) \<noteq> Some True
     then (case renderShape key2pos state sc bs arrowDests n of
             Inl e \<Rightarrow> ((rootEl, n), Some e)
           | Inr (el, n1) \<Rightarrow>
               appendShapes key2pos state hashesInDom bs arrowDests scs (rootEl @ [el]) n1)
     else appendShapes key2pos state hashesInDom bs arrowDests scs rootEl n)"

definition syncShapes ::
  "(Key \<Rightarrow> Pos) \<Rightarrow> State \<Rightarrow> Shape list \<Rightarrow> DrawBrushes \<Rightarrow> ArrowDests \<Rightarrow>
     SVGElement list \<Rightarrow> nat \<Rightarrow> (SVGElement list \<times> nat) \<times> error option" where
  "syncShapes key2pos state scs bs arrowDests rootEl n =
    (let hashesInDom0 = foldl (\<lambda>m sc. m(hash sc \<mapsto> False)) Map.empty scs;
         (hashesInDom, toRemove) = scanChildren rootEl hashesInDom0 [];
         root1 = foldl removeChild rootEl toRemove
     in appendShapes key2pos state hashesInDom bs arrowDests scs root1 n)"

section \<open>The orchestrator\<close>

fun countDests :: "DrawShape list \<Rightarrow> ArrowDests \<Rightarrow> ArrowDests" where
  "countDests [] arrowDests = arrowDests"
| "countDests (s # ss) arrowDests =
    (case ifTruthy (dest s) of
       None \<Rightarrow> countDests ss arrowDests
     | Some d \<Rightarrow> countDests ss (arrowDests(d \<mapsto> getOr0 arrowDests d + 1)))"

text \<open>The preview shape: \<^verbatim>\<open>curD && curD.mouseSq ? (curD as DrawShape) : undefined\<close>\<close>

definition curShape :: "Drawable \<Rightarrow> DrawShape option" where
  "curShape d =
    (case d_current d of
       None \<Rightarrow> None
     | Some curD \<Rightarrow> (case ifTruthy (c_mouseSq curD) of None \<Rightarrow> None | Some _ \<Rightarrow> Some (asDrawShape curD)))"

definition optList :: "'a option \<Rightarrow> 'a list" where
  "optList x = (case x of None \<Rightarrow> [] | Some y \<Rightarrow> [y])"

definition arrowDestsOf :: "Drawable \<Rightarrow> ArrowDests" where
  "arrowDestsOf d = countDests (shapes d @ autoShapes d @ optList (curShape d)) Map.empty"

definition hashedShapes :: "Drawable \<Rightarrow> Shape list" where
  "hashedShapes d =
    (let arrowDests = arrowDestsOf d
     in map (\<lambda>s. \<lparr>shape = s, current = False, hash = shapeHash s arrowDests False\<rparr>)
            (shapes d @ autoShapes d)
        @ map (\<lambda>cur. \<lparr>shape = cur, current = True, hash = shapeHash cur arrowDests True\<rparr>)
            (optList (curShape d)))"

definition fullHashOf :: "Drawable \<Rightarrow> Hash" where
  "fullHashOf d = join '';'' (map (\<lambda>sc. JStr (hash sc)) (hashedShapes d))"

text \<open>
  The three output containers (the children of \<^verbatim>\<open><defs>\<close>, of the \<^verbatim>\<open><g>\<close> of the shapes and
  of the \<^verbatim>\<open><g>\<close> of the custom SVGs) and the number of elements created so far.
\<close>

record Dom =
  defsEl :: "SVGElement list"
  shapesEl :: "SVGElement list"
  customSvgsEl :: "SVGElement list"
  nextId :: nat

text \<open>
  \<^verbatim>\<open>renderSvg\<close> returns nothing; the model returns the state and the containers as the call
  leaves them, and the exception if one was thrown on the way.
\<close>

definition renderSvg :: "(Key \<Rightarrow> Pos) \<Rightarrow> State \<Rightarrow> Dom \<Rightarrow> (State \<times> Dom) \<times> error option" where
  "renderSvg key2pos state doc =
    (let d = drawable state;
         arrowDests = arrowDestsOf d;
         scs = hashedShapes d;
         fullHash = fullHashOf d
     in if Some fullHash = prevSvgHash d then ((state, doc), None)
        else
         (let state1 = state\<lparr>drawable := d\<lparr>prevSvgHash := Some fullHash\<rparr>\<rparr>
          in case syncDefs d scs (defsEl doc) (nextId doc) of
               Inl e \<Rightarrow> ((state1, doc), Some e)
             | Inr (defs1, n1) \<Rightarrow>
                (let doc1 = doc\<lparr>defsEl := defs1, nextId := n1\<rparr>
                 in case syncShapes key2pos state1
                           (filter (\<lambda>sc. \<not> truthy (optStr (customSvg (shape sc)))) scs)
                           (brushes d) arrowDests (shapesEl doc1) (nextId doc1) of
                      ((root2, n2), Some e) \<Rightarrow> ((state1, doc1\<lparr>shapesEl := root2, nextId := n2\<rparr>), Some e)
                    | ((root2, n2), None) \<Rightarrow>
                       (let doc2 = doc1\<lparr>shapesEl := root2, nextId := n2\<rparr>
                        in case syncShapes key2pos state1
                                  (filter (\<lambda>sc. truthy (optStr (customSvg (shape sc)))) scs)
                                  (brushes d) arrowDests (customSvgsEl doc2) (nextId doc2) of
                             ((root3, n3), err) \<Rightarrow>
                               ((state1, doc2\<lparr>customSvgsEl := root3, nextId := n3\<rparr>), err)))))"

section \<open>The rolling hash as the specification words it\<close>

text \<open>
  Seed \<open>0\<close>; for each character, the new state is
  \<open>((old << 5) - old + code) mod 2 ^ 32\<close>, with the shift read as the multiplication by
  \<open>2 ^ 5\<close> on unbounded integers.
\<close>

definition specStep :: "int \<Rightarrow> int \<Rightarrow> int" where
  "specStep old code = (old * 2 ^ 5 - old + code) mod 2 ^ 32"

fun specRollingHash :: "int \<Rightarrow> string \<Rightarrow> int" where
  "specRollingHash h [] = h"
| "specRollingHash h (c # cs) = specRollingHash (specStep h (charCode c)) cs"

section \<open>Notions used to state the properties\<close>

text \<open>
  The shapes that \<^verbatim>\<open>renderSvg\<close> iterates over (static, auto, and the preview shape when one
  is active), the arrows among some shapes that end on a square, and their distinct
  origins.
\<close>

definition allShapes :: "Drawable \<Rightarrow> DrawShape list" where
  "allShapes d = shapes d @ autoShapes d @ optList (curShape d)"

definition arrowsInto :: "Key \<Rightarrow> DrawShape list \<Rightarrow> DrawShape list" where
  "arrowsInto k ss = filter (\<lambda>s. ifTruthy (dest s) = Some k) ss"

definition originsInto :: "Key \<Rightarrow> DrawShape list \<Rightarrow> Key list" where
  "originsInto k ss = remdups (map orig (arrowsInto k ss))"

text \<open>
  The vector from the start to the end of an arrow in user coordinates, and the reading
  of a numeric presentation attribute.
\<close>

definition arrowVector :: "Pos \<Rightarrow> Pos \<Rightarrow> real \<times> real" where
  "arrowVector p q =
    (of_int (fst (pos2user q)) - of_int (fst (pos2user p)),
     of_int (snd (pos2user q)) - of_int (snd (pos2user p)))"

definition numAttr :: "SVGElement \<Rightarrow> string \<Rightarrow> real option" where
  "numAttr el k = (case map_of (attributes el) k of Some (ANum r) \<Rightarrow> Some r | _ \<Rightarrow> None)"

text \<open>
  A child is matched by a target list when its \<^verbatim>\<open>cgHash\<close> is the hash of one of the targets.
  A shape can be rendered when \<^verbatim>\<open>renderShape\<close> does not throw on it: it carries markup, or
  a piece with a role, or the brush it names is in the catalog.
\<close>

definition matched :: "Shape list \<Rightarrow> SVGElement \<Rightarrow> bool" where
  "matched scs el = (cgHash el \<in> Some ` hash ` set scs)"

definition canRender :: "DrawBrushes \<Rightarrow> Shape \<Rightarrow> bool" where
  "canRender bs sc =
    (case ifTruthy (customSvg (shape sc)) of
       Some _ \<Rightarrow> True
     | None \<Rightarrow>
        (case piece (shape sc) of
           Some p \<Rightarrow> p_role p \<noteq> []
         | None \<Rightarrow> lookupBrush bs (brush (shape sc)) \<noteq> None))"

text \<open>\<^verbatim>\<open>hashesInDom.has(el.getAttribute('cgHash'))\<close>\<close>

definition hasHash :: "(Hash \<rightharpoonup> bool) \<Rightarrow> SVGElement \<Rightarrow> bool" where
  "hasHash m el = (case cgHash el of None \<Rightarrow> False | Some h \<Rightarrow> m h \<noteq> None)"

text \<open>
  What the first loop of \<^verbatim>\<open>syncDefs\<close> computes, read off the code: the brush it sets for an
  arrow shape (the brush it looks up, or the brush derived from it when the shape has
  modifiers), the keys it sets for a target list, in the order of the shapes, and whether
  the lookup succeeds for every arrow of the list.
\<close>

definition derivedBrush :: "DrawBrushes \<Rightarrow> DrawShape \<Rightarrow> DrawBrush option" where
  "derivedBrush bs s =
    (case ifTruthy (dest s) of
       None \<Rightarrow> None
     | Some d \<Rightarrow>
        (case lookupBrush bs (brush s) of
           None \<Rightarrow> None
         | Some b0 \<Rightarrow> Some (case modifiers s of None \<Rightarrow> b0 | Some m \<Rightarrow> makeCustomBrush b0 m)))"

definition requiredKeys :: "DrawBrushes \<Rightarrow> Shape list \<Rightarrow> string list" where
  "requiredKeys bs scs = List.map_filter (\<lambda>sc. map_option b_key (derivedBrush bs (shape sc))) scs"

definition arrowsResolve :: "DrawBrushes \<Rightarrow> Shape list \<Rightarrow> bool" where
  "arrowsResolve bs scs =
    list_all (\<lambda>sc. ifTruthy (dest (shape sc)) = None \<or> lookupBrush bs (brush (shape sc)) \<noteq> None) scs"

text \<open>
  A run of cycles: every cycle is a call of \<^verbatim>\<open>renderSvg\<close> on a state the caller supplies
  (shapes, preview, brushes), with the snapshot \<^verbatim>\<open>prevSvgHash\<close> and the containers as the call
  before left them. \<open>requestedKeys\<close> collects the keys that the first loop of \<^verbatim>\<open>syncDefs\<close>
  sets in the cycles of the run that are reconciled: those not short-circuited in which the
  lookup succeeds for every arrow (on the others \<^verbatim>\<open>syncDefs\<close> is not reached, or throws
  before it appends).
\<close>

fun renderCycles :: "(Key \<Rightarrow> Pos) \<Rightarrow> State list \<Rightarrow> string option \<Rightarrow> Dom \<Rightarrow> string option \<times> Dom" where
  "renderCycles key2pos [] prev doc = (prev, doc)"
| "renderCycles key2pos (st # sts) prev doc =
    (case renderSvg key2pos (st\<lparr>drawable := (drawable st)\<lparr>prevSvgHash := prev\<rparr>\<rparr>) doc of
       ((st1, doc1), err) \<Rightarrow> renderCycles key2pos sts (prevSvgHash (drawable st1)) doc1)"

definition reconciled :: "State \<Rightarrow> string option \<Rightarrow> bool" where
  "reconciled st prev =
    (Some (fullHashOf (drawable st)) \<noteq> prev
     \<and> arrowsResolve (brushes (drawable st)) (hashedShapes (drawable st)))"

fun requestedKeys :: "(Key \<Rightarrow> Pos) \<Rightarrow> State list \<Rightarrow> string option \<Rightarrow> Dom \<Rightarrow> string list" where
  "requestedKeys key2pos [] prev doc = []"
| "requestedKeys key2pos (st # sts) prev doc =
    (if reconciled st prev
     then requiredKeys (brushes (drawable st)) (hashedShapes (drawable st)) else [])
    @ (case renderSvg key2pos (st\<lparr>drawable := (drawable st)\<lparr>prevSvgHash := prev\<rparr>\<rparr>) doc of
         ((st1, doc1), err) \<Rightarrow> requestedKeys key2pos sts (prevSvgHash (drawable st1)) doc1)"

text \<open>
  The marker keys as the specification words them, without the lookup of the code. An arrow
  shape (a shape with a destination) refers to the brush that its brush identifier names in
  the catalog; the key of its effective brush is the key of that brush, followed by the
  line-width override when the shape has modifiers that carry one. \<open>arrowKeys\<close> lists the
  keys that the arrow shapes of a list refer to, in the order of the shapes, and
  \<open>arrowsNamed\<close> says that every arrow shape of the list names a brush that the catalog
  holds. A state is well named when the arrow shapes of its cycle are.
\<close>

definition overrideText :: "DrawModifiers option \<Rightarrow> string" where
  "overrideText mods =
    (case mods of
       None \<Rightarrow> []
     | Some m \<Rightarrow> (case m_lineWidth m of None \<Rightarrow> [] | Some w \<Rightarrow> if w = 0 then [] else show_int w))"

definition arrowKey :: "DrawBrushes \<Rightarrow> DrawShape \<Rightarrow> string option" where
  "arrowKey bs s =
    (case ifTruthy (dest s) of
       None \<Rightarrow> None
     | Some d \<Rightarrow>
        (case brush s of
           None \<Rightarrow> None
         | Some name \<Rightarrow>
            (case bs name of
               None \<Rightarrow> None
             | Some b0 \<Rightarrow> Some (b_key b0 @ overrideText (modifiers s)))))"

definition arrowKeys :: "DrawBrushes \<Rightarrow> DrawShape list \<Rightarrow> string list" where
  "arrowKeys bs ss = List.map_filter (arrowKey bs) ss"

definition arrowsNamed :: "DrawBrushes \<Rightarrow> DrawShape list \<Rightarrow> bool" where
  "arrowsNamed bs ss =
    list_all (\<lambda>s. case ifTruthy (dest s) of
                    None \<Rightarrow> True
                  | Some d \<Rightarrow> (case brush s of None \<Rightarrow> False | Some name \<Rightarrow> bs name \<noteq> None)) ss"

definition wellNamed :: "State \<Rightarrow> bool" where
  "wellNamed st = arrowsNamed (brushes (drawable st)) (allShapes (drawable st))"

text \<open>
  The keys that the arrow shapes refer to in the cycles of a run that are not
  short-circuited. A cycle is short-circuited when its full hash is the snapshot that the
  cycle before left, which is the full hash of that cycle (\<open>prev\<close> for the first one).
\<close>

fun cycleKeys :: "State list \<Rightarrow> string option \<Rightarrow> string list" where
  "cycleKeys [] prev = []"
| "cycleKeys (st # sts) prev =
    (if Some (fullHashOf (drawable st)) = prev then []
     else arrowKeys (brushes (drawable st)) (allShapes (drawable st)))
    @ cycleKeys sts (Some (fullHashOf (drawable st)))"

text \<open>
  A marker resource: a \<^verbatim>\<open>marker\<close> element whose \<^verbatim>\<open>id\<close> is \<^verbatim>\<open>arrowhead-\<close> followed by the key that
  its \<^verbatim>\<open>cgKey\<close> records.
\<close>

definition isMarker :: "SVGElement \<Rightarrow> bool" where
  "isMarker el =
    (tagName el = ''marker''
     \<and> (case cgKey el of
          None \<Rightarrow> False
        | Some k \<Rightarrow> map_of (attributes el) ''id'' = Some (AStr (''arrowhead-'' @ k))))"

section \<open>Sample inputs\<close>

text \<open>
  Concrete inputs on which the theorems below are instantiated: the squares as file and
  rank (an instance of the parameter \<^verbatim>\<open>key2pos\<close>), a catalog with one brush, shapes of each
  kind, a shape being drawn, a state holding given shapes, the empty containers and
  destination counts, a tagged child and a target with a given hash.
\<close>

definition sampleKey2pos :: "Key \<Rightarrow> Pos" where
  "sampleKey2pos k = (case k of f # r # _ \<Rightarrow> (charCode f - 97, charCode r - 49) | _ \<Rightarrow> (0, 0))"

definition green :: DrawBrush where
  "green = \<lparr>b_key = ''g'', b_color = ''#15781B'', b_opacity = 1, b_lineWidth = 10\<rparr>"

definition sampleBrushes :: DrawBrushes where
  "sampleBrushes = [''green'' \<mapsto> green]"

definition arrow :: "Key \<Rightarrow> Key \<Rightarrow> DrawShape" where
  "arrow a b = \<lparr>orig = a, dest = Some b, brush = Some ''green'',
     modifiers = None, piece = None, customSvg = None\<rparr>"

definition circle :: "Key \<Rightarrow> DrawShape" where
  "circle a = \<lparr>orig = a, dest = None, brush = Some ''green'',
     modifiers = None, piece = None, customSvg = None\<rparr>"

definition sampleState :: "DrawShape list \<Rightarrow> DrawShape list \<Rightarrow> DrawCurrent option \<Rightarrow> string option \<Rightarrow> State" where
  "sampleState ss as cur prev =
    \<lparr>drawable = \<lparr>shapes = ss, autoShapes = as, d_current = cur, brushes = sampleBrushes,
                   prevSvgHash = prev, baseUrl = ''''\<rparr>,
     orientation = ''white''\<rparr>"

definition emptyDoc :: Dom where
  "emptyDoc = \<lparr>defsEl = [], shapesEl = [], customSvgsEl = [], nextId = 0\<rparr>"

definition markup :: "Key \<Rightarrow> string \<Rightarrow> DrawShape" where
  "markup a m = \<lparr>orig = a, dest = None, brush = None,
     modifiers = None, piece = None, customSvg = Some m\<rparr>"

definition whiteKnight :: DrawShapePiece where
  "whiteKnight = \<lparr>p_role = ''knight'', p_color = ''white'', p_scale = Some 2\<rparr>"

definition glyph :: "Key \<Rightarrow> DrawShapePiece \<Rightarrow> DrawShape" where
  "glyph a p = \<lparr>orig = a, dest = None, brush = None,
     modifiers = None, piece = Some p, customSvg = None\<rparr>"

definition thickArrow :: "Key \<Rightarrow> Key \<Rightarrow> int \<Rightarrow> DrawShape" where
  "thickArrow a b w = \<lparr>orig = a, dest = Some b, brush = Some ''green'',
     modifiers = Some \<lparr>m_lineWidth = Some w\<rparr>, piece = None, customSvg = None\<rparr>"

definition emptyDests :: ArrowDests where
  "emptyDests = Map.empty"

definition dragging :: "Key \<Rightarrow> Key \<Rightarrow> DrawCurrent" where
  "dragging a b = \<lparr>asDrawShape = arrow a b, c_mouseSq = Some b\<rparr>"

definition sampleNode :: "nat \<Rightarrow> Hash \<Rightarrow> SVGElement" where
  "sampleNode i h = SVGElement i ''circle'' [] (Some h) None [] []"

definition hashed :: "DrawShape \<Rightarrow> Hash \<Rightarrow> Shape" where
  "hashed s h = \<lparr>shape = s, current = False, hash = h\<rparr>"

text \<open>
  A second brush, a catalog with both brushes, an arrow that names the second brush, a
  state with another catalog, and the catalog in which the brush \<^verbatim>\<open>green\<close> has another key.
\<close>

definition red :: DrawBrush where
  "red = \<lparr>b_key = ''r'', b_color = ''#882020'', b_opacity = 1, b_lineWidth = 10\<rparr>"

definition twoBrushes :: DrawBrushes where
  "twoBrushes = [''green'' \<mapsto> green, ''red'' \<mapsto> red]"

definition redArrow :: "Key \<Rightarrow> Key \<Rightarrow> DrawShape" where
  "redArrow a b = \<lparr>orig = a, dest = Some b, brush = Some ''red'',
     modifiers = None, piece = None, customSvg = None\<rparr>"

definition withBrushes :: "DrawBrushes \<Rightarrow> State \<Rightarrow> State" where
  "withBrushes bs st = st\<lparr>drawable := (drawable st)\<lparr>brushes := bs\<rparr>\<rparr>"

definition rekeyed :: DrawBrushes where
  "rekeyed = [''green'' \<mapsto> green\<lparr>b_key := ''g2''\<rparr>]"

section \<open>Decimal numerals and joined strings\<close>

lemma show_nat_nonempty [simp]: "show_nat n \<noteq> []"
  by (subst show_nat.simps) simp

lemma digit_char_inj:
  assumes "d < 10" "e < 10" "digit_char d = digit_char e"
  shows "d = e"
proof -
  have "distinct ''0123456789''" by simp
  moreover have "d < length ''0123456789''" "e < length ''0123456789''" using assms by simp_all
  ultimately show ?thesis using assms(3) unfolding digit_char_def
    by (simp only: nth_eq_iff_index_eq)
qed

lemma digit_char_in: "d < 10 \<Longrightarrow> digit_char d \<in> set ''0123456789''"
  unfolding digit_char_def by (rule nth_mem) simp

lemma show_nat_digits: "set (show_nat n) \<subseteq> set ''0123456789''"
proof (induction n rule: show_nat.induct)
  case (1 n)
  show ?case
  proof (cases "n < 10")
    case True
    then show ?thesis using digit_char_in [of n] by (subst show_nat.simps) simp
  next
    case False
    have "n mod 10 < 10" by simp
    then show ?thesis using False 1 digit_char_in [of "n mod 10"]
      by (subst show_nat.simps) simp
  qed
qed

lemma show_nat_inj: "show_nat n = show_nat m \<Longrightarrow> n = m"
proof (induction n arbitrary: m rule: show_nat.induct)
  case (1 n)
  have sn: "show_nat n = (if n < 10 then [digit_char n] else show_nat (n div 10) @ [digit_char (n mod 10)])"
    by (rule show_nat.simps)
  have sm: "show_nat m = (if m < 10 then [digit_char m] else show_nat (m div 10) @ [digit_char (m mod 10)])"
    by (rule show_nat.simps)
  show ?case
  proof (cases "n < 10")
    case n: True
    show ?thesis
    proof (cases "m < 10")
      case True
      with n 1(2) sn sm show ?thesis by (auto dest: digit_char_inj)
    next
      case False
      with n 1(2) sn sm show_nat_nonempty [of "m div 10"] show ?thesis by auto
    qed
  next
    case n: False
    show ?thesis
    proof (cases "m < 10")
      case True
      with n 1(2) sn sm show_nat_nonempty [of "n div 10"] show ?thesis by auto
    next
      case False
      with n 1(2) sn sm have a: "show_nat (n div 10) = show_nat (m div 10)"
        and b: "digit_char (n mod 10) = digit_char (m mod 10)" by simp_all
      from 1(1) [OF n a] have "n div 10 = m div 10" .
      moreover from b have "n mod 10 = m mod 10" by (rule digit_char_inj [rotated 2]) simp_all
      ultimately show ?thesis by (metis div_mult_mod_eq)
    qed
  qed
qed

lemma show_int_nonempty [simp]: "show_int i \<noteq> []"
  by (simp add: show_int_def)

lemma show_int_inj: "show_int i = show_int j \<Longrightarrow> i = j"
proof -
  assume eq: "show_int i = show_int j"
  have nd: "CHR ''-'' \<notin> set (show_nat n)" for n using show_nat_digits [of n] by auto
  have hd: "show_nat n \<noteq> CHR ''-'' # xs" for n xs using nd [of n] by (metis list.set_intros(1))
  show ?thesis
  proof (cases "i < 0")
    case i: True
    show ?thesis
    proof (cases "j < 0")
      case True
      with i eq have "show_nat (nat (- i)) = show_nat (nat (- j))" by (simp add: show_int_def)
      then have "nat (- i) = nat (- j)" by (rule show_nat_inj)
      with i True show ?thesis by simp
    next
      case False
      with i eq hd [of "nat j"] show ?thesis by (simp add: show_int_def) metis
    qed
  next
    case i: False
    show ?thesis
    proof (cases "j < 0")
      case True
      with i eq hd [of "nat i"] show ?thesis by (simp add: show_int_def)
    next
      case False
      with i eq have "show_nat (nat i) = show_nat (nat j)" by (simp add: show_int_def)
      then have "nat i = nat j" by (rule show_nat_inj)
      with i False show ?thesis by simp
    qed
  qed
qed

lemma truthy_toString: "truthy a \<Longrightarrow> toString a \<noteq> []"
  by (cases a) simp_all

lemma join_Cons: "join sep (a # ys) = toString a @ (if ys = [] then [] else sep @ join sep ys)"
  by (cases ys) simp_all

lemma join_append:
  "join sep (xs @ a # ys)
     = (if xs = [] then [] else join sep xs @ sep) @ toString a @ (if ys = [] then [] else sep @ join sep ys)"
proof (induction sep xs rule: join.induct)
  case (1 sep)
  show ?case by (simp add: join_Cons)
next
  case (2 sep x)
  show ?case by (simp add: join_Cons)
next
  case (3 sep x y ys)
  then show ?case by simp
qed

lemma length_join:
  "length (join sep xs) = sum_list (map (\<lambda>x. length (toString x)) xs) + length sep * (length xs - 1)"
  by (induction sep xs rule: join.induct) simp_all

lemma filter_truthy_mid:
  "filter truthy (pre @ a # suf) = filter truthy pre @ (if truthy a then [a] else []) @ filter truthy suf"
  by simp

lemma join_mid_neq:
  assumes "toString a \<noteq> toString b"
  shows "join sep (xs @ a # ys) \<noteq> join sep (xs @ b # ys)"
  using assms by (simp add: join_append)

lemma length_join_insert_le:
  "length (join sep (xs @ ys)) \<le> length (join sep (xs @ a # ys))"
proof -
  have le: "length sep * (length xs + length ys - Suc 0) \<le> length sep * (length xs + length ys)"
    by (rule mult_le_mono2) simp
  show ?thesis by (simp add: length_join) (use le in linarith)
qed

lemma length_join_insert:
  assumes "toString a \<noteq> []"
  shows "length (join sep (xs @ ys)) < length (join sep (xs @ a # ys))"
proof -
  have le: "length sep * (length xs + length ys - Suc 0) \<le> length sep * (length xs + length ys)"
    by (rule mult_le_mono2) simp
  have pos: "0 < length (toString a)" using assms by simp
  show ?thesis by (simp add: length_join) (use le pos in linarith)
qed

lemma join_filter_change:
  assumes "truthy a \<or> truthy b"
    and "truthy a \<and> truthy b \<Longrightarrow> toString a \<noteq> toString b"
  shows "join sep (filter truthy (pre @ a # suf)) \<noteq> join sep (filter truthy (pre @ b # suf))"
proof (cases "truthy a")
  case a: True
  show ?thesis
  proof (cases "truthy b")
    case True
    with a assms(2) show ?thesis by (simp add: join_mid_neq)
  next
    case False
    have "length (join sep (filter truthy pre @ filter truthy suf))
        < length (join sep (filter truthy pre @ a # filter truthy suf))"
      by (rule length_join_insert) (simp add: truthy_toString a)
    with a False show ?thesis by auto
  qed
next
  case a: False
  with assms(1) have b: "truthy b" by simp
  have "length (join sep (filter truthy pre @ filter truthy suf))
      < length (join sep (filter truthy pre @ b # filter truthy suf))"
    by (rule length_join_insert) (simp add: truthy_toString b)
  with a b show ?thesis by auto
qed

lemma join_filter_same:
  assumes "\<not> truthy a" "\<not> truthy b"
  shows "join sep (filter truthy (pre @ a # suf)) = join sep (filter truthy (pre @ b # suf))"
  using assms by simp

lemma split_at_index:
  assumes "i < length ts"
  shows "ts = take i ts @ ts ! i # drop (Suc i) ts" "ts[i := b] = take i ts @ b # drop (Suc i) ts"
  using assms by (simp_all add: id_take_nth_drop [symmetric] upd_conv_take_nth_drop)

lemma join_filter_update:
  assumes "i < length ts" "truthy (ts ! i) \<or> truthy b"
    and "truthy (ts ! i) \<and> truthy b \<Longrightarrow> toString (ts ! i) \<noteq> toString b"
  shows "join sep (filter truthy (ts[i := b])) \<noteq> join sep (filter truthy ts)"
proof -
  have "join sep (filter truthy (take i ts @ ts ! i # drop (Suc i) ts))
      \<noteq> join sep (filter truthy (take i ts @ b # drop (Suc i) ts))"
    using assms(2,3) by (rule join_filter_change)
  then show ?thesis using split_at_index [OF assms(1)] by metis
qed

lemma join_filter_update_same:
  assumes "i < length ts" "\<not> truthy (ts ! i)" "\<not> truthy b"
  shows "join sep (filter truthy (ts[i := b])) = join sep (filter truthy ts)"
proof -
  have "join sep (filter truthy (take i ts @ ts ! i # drop (Suc i) ts))
      = join sep (filter truthy (take i ts @ b # drop (Suc i) ts))"
    using assms(2,3) by (rule join_filter_same)
  then show ?thesis using split_at_index [OF assms(1)] by metis
qed

lemma length_join_filter_update_le:
  assumes "i < length ts" "\<not> truthy b"
  shows "length (join sep (filter truthy (ts[i := b]))) \<le> length (join sep (filter truthy ts))"
proof -
  have "length (join sep (filter truthy (take i ts @ b # drop (Suc i) ts)))
      \<le> length (join sep (filter truthy (take i ts @ ts ! i # drop (Suc i) ts)))"
    using assms(2) by (simp add: length_join_insert_le)
  then show ?thesis using split_at_index [OF assms(1)] by metis
qed

lemma length_join_filter_update_less:
  assumes "i < length ts" "\<not> truthy b" "truthy (ts ! i)"
  shows "length (join sep (filter truthy (ts[i := b]))) < length (join sep (filter truthy ts))"
proof -
  have "length (join sep (filter truthy (take i ts @ b # drop (Suc i) ts)))
      < length (join sep (filter truthy (take i ts @ ts ! i # drop (Suc i) ts)))"
    using assms(2,3) by (simp add: length_join_insert truthy_toString)
  then show ?thesis using split_at_index [OF assms(1)] by metis
qed

section \<open>Properties of the rolling hash\<close>

lemma toInt32_mod: "toInt32 x mod 4294967296 = x mod 4294967296"
  unfolding toInt32_def by (simp add: mod_simps)

lemma shiftLeft_mod: "shiftLeft h n mod 4294967296 = (h * 2 ^ n) mod 4294967296"
proof -
  have "shiftLeft h n mod 4294967296 = (toInt32 h * 2 ^ n) mod 4294967296"
    unfolding shiftLeft_def by (rule toInt32_mod)
  also have "\<dots> = ((toInt32 h mod 4294967296) * 2 ^ n) mod 4294967296"
    by (simp only: mod_mult_left_eq)
  also have "\<dots> = (h * 2 ^ n) mod 4294967296"
    by (simp only: toInt32_mod mod_mult_left_eq)
  finally show ?thesis .
qed

lemma step_eq: "toUint32 (shiftLeft h 5 - h + c) = specStep h c"
proof -
  have "(shiftLeft h 5 - h) mod 4294967296 = (h * 2 ^ 5 - h) mod 4294967296"
    by (rule mod_diff_cong [OF shiftLeft_mod refl])
  then have "(shiftLeft h 5 - h + c) mod 4294967296 = (h * 2 ^ 5 - h + c) mod 4294967296"
    by (rule mod_add_cong [OF _ refl])
  then show ?thesis by (simp add: toUint32_def specStep_def)
qed

lemma rollingHash_spec: "rollingHash h s = specRollingHash h s"
  by (induction s arbitrary: h) (simp_all only: rollingHash.simps specRollingHash.simps step_eq)

lemma specStep_31: "specStep h c = (31 * h + c) mod 2 ^ 32"
  by (simp add: specStep_def algebra_simps)

lemma specStep_range: "0 \<le> specStep h c \<and> specStep h c < 2 ^ 32"
  by (simp add: specStep_def)

lemma specRollingHash_range:
  "0 \<le> h \<and> h < 2 ^ 32 \<Longrightarrow> 0 \<le> specRollingHash h s \<and> specRollingHash h s < 2 ^ 32"
proof (induction s arbitrary: h)
  case Nil
  then show ?case by simp
next
  case (Cons c cs)
  show ?case using Cons.IH [OF specStep_range] by simp
qed

lemma specRollingHash_seed_range: "0 \<le> specRollingHash 0 s \<and> specRollingHash 0 s < 2 ^ 32"
  by (rule specRollingHash_range) simp

lemma customSvgHash_rect: "customSvgHash ''<rect/>'' = ''custom-775707151''"
  by (simp add: customSvgHash_def toUint32_def shiftLeft_def toInt32_def charCode_def
      show_int_def show_nat.simps digit_char_def)

text \<open>
  C7. \<^verbatim>\<open>customSvgHash\<close> is the 32-bit polynomial rolling hash of the specification: from
  seed \<open>0\<close>, each character takes the state \<open>old\<close> to
  \<open>((old << 5) - old + code) mod 2 ^ 32\<close>, which is \<open>(31 * old + code) mod 2 ^ 32\<close>; the
  JavaScript operators \<^verbatim>\<open><<\<close> (signed 32 bits) and \<^verbatim>\<open>>>> 0\<close> (unsigned 32 bits) of the
  source compute exactly that. The result, an unsigned 32-bit value, is printed in decimal
  after the tag \<^verbatim>\<open>custom-\<close>. Being a function of the string alone it is the same on every
  run; for \<^verbatim>\<open><rect/>\<close> it is \<^verbatim>\<open>custom-775707151\<close>.
\<close>

theorem customSvgHash_is_rolling_hash:
  "customSvgHash s = ''custom-'' @ show_int (specRollingHash 0 s)
   \<and> specStep h c = (31 * h + c) mod 2 ^ 32
   \<and> 0 \<le> specRollingHash 0 s \<and> specRollingHash 0 s < 2 ^ 32
   \<and> customSvgHash ''<rect/>'' = ''custom-775707151''"
proof -
  have "customSvgHash s = ''custom-'' @ show_int (specRollingHash 0 s)"
    by (simp only: customSvgHash_def rollingHash_spec)
  with specStep_31 [of h c] specRollingHash_seed_range [of s] customSvgHash_rect
  show ?thesis by blast
qed

section \<open>Properties of the identity hash\<close>

text \<open>
  C10. A shape whose modifiers are present but carry no line width, or the line width
  \<open>0\<close>, has the same hash as the same shape without modifiers, for every destination
  count and either value of the preview flag: the modifiers sub-hash is the empty string,
  which the filter drops like an absent entry.
\<close>

theorem shapeHash_modifiers_without_lineWidth:
  "shapeHash (s\<lparr>modifiers := Some \<lparr>m_lineWidth = None\<rparr>\<rparr>) arrowDests cur
     = shapeHash (s\<lparr>modifiers := None\<rparr>) arrowDests cur
   \<and> shapeHash (s\<lparr>modifiers := Some \<lparr>m_lineWidth = Some 0\<rparr>\<rparr>) arrowDests cur
     = shapeHash (s\<lparr>modifiers := None\<rparr>) arrowDests cur
   \<and> modifiersHash \<lparr>m_lineWidth = None\<rparr> = []
   \<and> modifiersHash \<lparr>m_lineWidth = Some 0\<rparr> = []"
  by (simp add: shapeHash_def shapeHashTokens_def modifiersHash_def optNum_def)

lemma tokens_length [simp]: "length (shapeHashTokens s ad cur) = 8"
  by (simp add: shapeHashTokens_def)

lemma shapeHash_preview: "shapeHash s ad True \<noteq> shapeHash s ad False"
proof -
  have "shapeHashTokens s ad True = (shapeHashTokens s ad False)[0 := JBool True]"
    by (simp add: shapeHashTokens_def)
  moreover have "join '','' (filter truthy ((shapeHashTokens s ad False)[0 := JBool True]))
      \<noteq> join '','' (filter truthy (shapeHashTokens s ad False))"
    by (rule join_filter_update) (simp_all add: shapeHashTokens_def)
  ultimately show ?thesis by (simp add: shapeHash_def)
qed

lemma shapeHash_orig:
  assumes "x \<noteq> orig s"
  shows "shapeHash (s\<lparr>orig := x\<rparr>) ad cur \<noteq> shapeHash s ad cur"
proof -
  have "shapeHashTokens (s\<lparr>orig := x\<rparr>) ad cur = (shapeHashTokens s ad cur)[Suc 0 := JStr x]"
    by (simp add: shapeHashTokens_def)
  moreover have "join '','' (filter truthy ((shapeHashTokens s ad cur)[Suc 0 := JStr x]))
      \<noteq> join '','' (filter truthy (shapeHashTokens s ad cur))"
    using assms by (intro join_filter_update) (auto simp add: shapeHashTokens_def)
  ultimately show ?thesis by (simp add: shapeHash_def)
qed

lemma shapeHash_brush:
  assumes "x \<noteq> brush s" "ifTruthy x \<noteq> None \<or> ifTruthy (brush s) \<noteq> None"
  shows "shapeHash (s\<lparr>brush := x\<rparr>) ad cur \<noteq> shapeHash s ad cur"
proof -
  have "shapeHashTokens (s\<lparr>brush := x\<rparr>) ad cur = (shapeHashTokens s ad cur)[3 := optStr x]"
    by (simp add: shapeHashTokens_def numeral_3_eq_3)
  moreover have "join '','' (filter truthy ((shapeHashTokens s ad cur)[3 := optStr x]))
      \<noteq> join '','' (filter truthy (shapeHashTokens s ad cur))"
    using assms by (intro join_filter_update) 
      (auto simp add: shapeHashTokens_def optStr_def ifTruthy_def split: option.splits if_splits)
  ultimately show ?thesis by (simp add: shapeHash_def)
qed

lemma shapeHash_shorten:
  assumes "ifTruthy (dest s) = Some d" "(getOr0 ad d > 1) \<noteq> (getOr0 ad' d > 1)"
  shows "shapeHash s ad' cur \<noteq> shapeHash s ad cur"
proof -
  from assms(1) have d: "dest s = Some d" "d \<noteq> []"
    by (auto simp add: ifTruthy_def split: option.splits if_splits)
  have "shapeHashTokens s ad' cur = (shapeHashTokens s ad cur)[4 := JBool (getOr0 ad' d > 1)]"
    by (simp add: shapeHashTokens_def d eval_nat_numeral andAlso_def)
  moreover have "join '','' (filter truthy ((shapeHashTokens s ad cur)[4 := JBool (getOr0 ad' d > 1)]))
      \<noteq> join '','' (filter truthy (shapeHashTokens s ad cur))"
    using assms(2) by (intro join_filter_update) (auto simp add: shapeHashTokens_def d andAlso_def)
  ultimately show ?thesis by (simp add: shapeHash_def)
qed

lemma pieceHash_color:
  assumes "x \<noteq> p_color p"
  shows "pieceHash (p\<lparr>p_color := x\<rparr>) \<noteq> pieceHash p"
proof -
  let ?ts = "[JStr (p_color p), JStr (p_role p), optNum (p_scale p)]"
  have "join '','' (filter truthy (?ts[0 := JStr x])) \<noteq> join '','' (filter truthy ?ts)"
    using assms by (intro join_filter_update) auto
  then show ?thesis by (simp add: pieceHash_def)
qed

lemma pieceHash_role:
  assumes "x \<noteq> p_role p"
  shows "pieceHash (p\<lparr>p_role := x\<rparr>) \<noteq> pieceHash p"
proof -
  let ?ts = "[JStr (p_color p), JStr (p_role p), optNum (p_scale p)]"
  have "join '','' (filter truthy (?ts[Suc 0 := JStr x])) \<noteq> join '','' (filter truthy ?ts)"
    using assms by (intro join_filter_update) auto
  then show ?thesis by (simp add: pieceHash_def)
qed

lemma optNum_toString:
  "truthy (optNum x) \<Longrightarrow> truthy (optNum y) \<Longrightarrow> x \<noteq> y \<Longrightarrow> toString (optNum x) \<noteq> toString (optNum y)"
  by (auto simp add: optNum_def split: option.splits dest: show_int_inj)

lemma pieceHash_scale:
  assumes "x \<noteq> p_scale p" "truthy (optNum x) \<or> truthy (optNum (p_scale p))"
  shows "pieceHash (p\<lparr>p_scale := x\<rparr>) \<noteq> pieceHash p"
proof -
  let ?ts = "[JStr (p_color p), JStr (p_role p), optNum (p_scale p)]"
  have "join '','' (filter truthy (?ts[Suc (Suc 0) := optNum x])) \<noteq> join '','' (filter truthy ?ts)"
    using assms optNum_toString [of "p_scale p" x] by (intro join_filter_update) auto
  then show ?thesis by (simp add: pieceHash_def)
qed

lemma shapeHash_piece:
  assumes "piece s = Some p" "pieceHash q \<noteq> pieceHash p"
  shows "shapeHash (s\<lparr>piece := Some q\<rparr>) ad cur \<noteq> shapeHash s ad cur"
proof -
  have "shapeHashTokens (s\<lparr>piece := Some q\<rparr>) ad cur = (shapeHashTokens s ad cur)[5 := JStr (pieceHash q)]"
    by (simp add: shapeHashTokens_def eval_nat_numeral)
  moreover have "join '','' (filter truthy ((shapeHashTokens s ad cur)[5 := JStr (pieceHash q)]))
      \<noteq> join '','' (filter truthy (shapeHashTokens s ad cur))"
    using assms by (intro join_filter_update) (auto simp add: shapeHashTokens_def)
  ultimately show ?thesis by (simp add: shapeHash_def)
qed

lemma modifiersHash_lineWidth:
  assumes "x \<noteq> y" "truthy (optNum x) \<or> truthy (optNum y)"
  shows "modifiersHash \<lparr>m_lineWidth = x\<rparr> \<noteq> modifiersHash \<lparr>m_lineWidth = y\<rparr>"
  using assms optNum_toString [of x y] truthy_toString [of "optNum x"] truthy_toString [of "optNum y"]
  by (auto simp add: modifiersHash_def)

lemma shapeHash_modifiers:
  assumes "modifiers s = Some m" "modifiersHash m' \<noteq> modifiersHash m"
  shows "shapeHash (s\<lparr>modifiers := Some m'\<rparr>) ad cur \<noteq> shapeHash s ad cur"
proof -
  have "shapeHashTokens (s\<lparr>modifiers := Some m'\<rparr>) ad cur = (shapeHashTokens s ad cur)[6 := JStr (modifiersHash m')]"
    by (simp add: shapeHashTokens_def eval_nat_numeral)
  moreover have "join '','' (filter truthy ((shapeHashTokens s ad cur)[6 := JStr (modifiersHash m')]))
      \<noteq> join '','' (filter truthy (shapeHashTokens s ad cur))"
    using assms by (intro join_filter_update) (auto simp add: shapeHashTokens_def)
  ultimately show ?thesis by (simp add: shapeHash_def)
qed

lemma customSvgHash_eq_iff: "customSvgHash c = customSvgHash c' \<longleftrightarrow> rollingHash 0 c = rollingHash 0 c'"
  by (auto simp add: customSvgHash_def dest: show_int_inj)

lemma shapeHash_customSvg:
  "shapeHash (s\<lparr>customSvg := x\<rparr>) ad cur = shapeHash s ad cur
    \<longleftrightarrow> (case (ifTruthy x, ifTruthy (customSvg s)) of
          (None, None) \<Rightarrow> True
        | (Some c, Some c') \<Rightarrow> rollingHash 0 c = rollingHash 0 c'
        | _ \<Rightarrow> False)"
proof -
  let ?tok = "\<lambda>x. (case x of None \<Rightarrow> JUndefined | Some c \<Rightarrow> andAlso (JStr c) (JStr (customSvgHash c)))"
  have upd: "shapeHashTokens (s\<lparr>customSvg := x\<rparr>) ad cur = (shapeHashTokens s ad cur)[7 := ?tok x]"
    by (simp add: shapeHashTokens_def eval_nat_numeral)
  have old: "shapeHashTokens s ad cur ! 7 = ?tok (customSvg s)"
    by (simp add: shapeHashTokens_def eval_nat_numeral)
  have tr: "truthy (?tok y) \<longleftrightarrow> ifTruthy y \<noteq> None" for y
    by (auto simp add: andAlso_def ifTruthy_def customSvgHash_def split: option.splits)
  have ts: "ifTruthy y = Some c \<Longrightarrow> toString (?tok y) = customSvgHash c" for y c
    by (auto simp add: andAlso_def ifTruthy_def split: option.splits if_splits)
  show ?thesis
  proof (cases "ifTruthy x")
    case None
    show ?thesis
    proof (cases "ifTruthy (customSvg s)")
      case n: None
      have "join '','' (filter truthy ((shapeHashTokens s ad cur)[7 := ?tok x]))
          = join '','' (filter truthy (shapeHashTokens s ad cur))"
        by (rule join_filter_update_same) (simp_all add: old tr None n)
      then show ?thesis by (simp add: shapeHash_def upd None n)
    next
      case (Some c')
      have "join '','' (filter truthy ((shapeHashTokens s ad cur)[7 := ?tok x]))
          \<noteq> join '','' (filter truthy (shapeHashTokens s ad cur))"
        by (rule join_filter_update) (simp_all add: old tr None Some)
      then show ?thesis by (simp add: shapeHash_def upd None Some)
    qed
  next
    case (Some c)
    show ?thesis
    proof (cases "ifTruthy (customSvg s)")
      case None
      have "join '','' (filter truthy ((shapeHashTokens s ad cur)[7 := ?tok x]))
          \<noteq> join '','' (filter truthy (shapeHashTokens s ad cur))"
        by (rule join_filter_update) (simp_all add: old tr None Some)
      then show ?thesis by (simp add: shapeHash_def upd None Some)
    next
      case s: (Some c')
      show ?thesis
      proof (cases "rollingHash 0 c = rollingHash 0 c'")
        case True
        then have "?tok x = ?tok (customSvg s)"
          using Some s by (auto simp add: andAlso_def ifTruthy_def customSvgHash_def split: option.splits if_splits)
        then have "(shapeHashTokens s ad cur)[7 := ?tok x] = shapeHashTokens s ad cur"
          using old by (metis list_update_id)
        then show ?thesis using True by (simp add: shapeHash_def upd Some s)
      next
        case False
        have "join '','' (filter truthy ((shapeHashTokens s ad cur)[7 := ?tok x]))
            \<noteq> join '','' (filter truthy (shapeHashTokens s ad cur))"
          using False
          by (intro join_filter_update) (auto simp add: old tr ts [OF Some] ts [OF s] Some s customSvgHash_eq_iff)
        then show ?thesis using False by (simp add: shapeHash_def upd Some s)
      qed
    qed
  qed
qed

lemma shapeHash_dest_gone:
  assumes "ifTruthy (dest s) = Some d" "ifTruthy x = None"
  shows "length (shapeHash (s\<lparr>dest := x\<rparr>) ad cur) < length (shapeHash s ad cur)"
proof -
  let ?T = "shapeHashTokens s ad cur"
  let ?f4 = "(case x of None \<Rightarrow> JUndefined | Some k \<Rightarrow> andAlso (JStr k) (JBool (getOr0 ad k > 1)))"
  from assms(1) have d: "dest s = Some d" "d \<noteq> []"
    by (auto simp add: ifTruthy_def split: option.splits if_splits)
  from assms(2) have x: "\<not> truthy (optStr x)" "\<not> truthy ?f4"
    by (auto simp add: ifTruthy_def optStr_def andAlso_def split: option.splits if_splits)
  have upd: "shapeHashTokens (s\<lparr>dest := x\<rparr>) ad cur = (?T[4 := ?f4])[2 := optStr x]"
    by (simp add: shapeHashTokens_def eval_nat_numeral)
  have "length (join '','' (filter truthy ((?T[4 := ?f4])[2 := optStr x])))
      < length (join '','' (filter truthy (?T[4 := ?f4])))"
    by (rule length_join_filter_update_less) (simp_all add: x, simp add: shapeHashTokens_def d optStr_def)
  also have "\<dots> \<le> length (join '','' (filter truthy ?T))"
    by (rule length_join_filter_update_le) (simp_all add: x)
  finally show ?thesis by (simp add: shapeHash_def upd)
qed

lemma shapeHash_dest_same_flag:
  assumes "ifTruthy (dest s) = Some d'" "ifTruthy x = Some d" "d \<noteq> d'"
    "(getOr0 ad d > 1) = (getOr0 ad d' > 1)"
  shows "shapeHash (s\<lparr>dest := x\<rparr>) ad cur \<noteq> shapeHash s ad cur"
proof -
  from assms(1) have d': "dest s = Some d'" "d' \<noteq> []"
    by (auto simp add: ifTruthy_def split: option.splits if_splits)
  from assms(2) have d: "x = Some d" "d \<noteq> []"
    by (auto simp add: ifTruthy_def split: option.splits if_splits)
  have "shapeHashTokens (s\<lparr>dest := x\<rparr>) ad cur = (shapeHashTokens s ad cur)[2 := JStr d]"
    using assms(4) by (simp add: shapeHashTokens_def eval_nat_numeral d d' optStr_def andAlso_def)
  moreover have "join '','' (filter truthy ((shapeHashTokens s ad cur)[2 := JStr d]))
      \<noteq> join '','' (filter truthy (shapeHashTokens s ad cur))"
    using assms(3) by (intro join_filter_update) (auto simp add: shapeHashTokens_def d d' optStr_def)
  ultimately show ?thesis by (simp add: shapeHash_def)
qed

lemma shapeHash_dest_same_length:
  assumes "ifTruthy (dest s) = Some d'" "ifTruthy x = Some d" "d \<noteq> d'" "length d = length d'"
  shows "shapeHash (s\<lparr>dest := x\<rparr>) ad cur \<noteq> shapeHash s ad cur"
proof -
  from assms(1) have d': "dest s = Some d'" "d' \<noteq> []"
    by (auto simp add: ifTruthy_def split: option.splits if_splits)
  from assms(2) have d: "x = Some d" "d \<noteq> []"
    by (auto simp add: ifTruthy_def split: option.splits if_splits)
  let ?pre = "[JBool cur, JStr (orig s)]"
  obtain suf where t: "shapeHashTokens s ad cur = ?pre @ JStr d' # suf"
    by (simp add: shapeHashTokens_def d' optStr_def)
  obtain suf' where t': "shapeHashTokens (s\<lparr>dest := x\<rparr>) ad cur = ?pre @ JStr d # suf'"
    by (simp add: shapeHashTokens_def d optStr_def)
  let ?X = "(if filter truthy ?pre = [] then [] else join '','' (filter truthy ?pre) @ '','')"
  obtain Y where h: "shapeHash s ad cur = ?X @ d' @ Y"
    unfolding shapeHash_def t filter_truthy_mid using d'(2) by (simp add: join_append del: filter.simps)
  obtain Y' where h': "shapeHash (s\<lparr>dest := x\<rparr>) ad cur = ?X @ d @ Y'"
    unfolding shapeHash_def t' filter_truthy_mid using d(2) by (simp add: join_append del: filter.simps)
  show ?thesis
  proof
    assume "shapeHash (s\<lparr>dest := x\<rparr>) ad cur = shapeHash s ad cur"
    then have "d @ Y' = d' @ Y" unfolding h h' by simp
    with assms(4) have "d = d'" by simp
    with assms(3) show False by simp
  qed
qed

lemma shapeHash_dest:
  assumes "ifTruthy x \<noteq> ifTruthy (dest s)"
    and "\<And>d d'. ifTruthy x = Some d \<Longrightarrow> ifTruthy (dest s) = Some d'
          \<Longrightarrow> (getOr0 ad d > 1) = (getOr0 ad d' > 1) \<or> length d = length d'"
  shows "shapeHash (s\<lparr>dest := x\<rparr>) ad cur \<noteq> shapeHash s ad cur"
proof (cases "ifTruthy x")
  case None
  with assms(1) obtain d' where d': "ifTruthy (dest s) = Some d'" by (cases "ifTruthy (dest s)") auto
  from shapeHash_dest_gone [OF d' None, of ad cur] show ?thesis by auto
next
  case (Some d)
  show ?thesis
  proof (cases "ifTruthy (dest s)")
    case None
    have "ifTruthy (dest (s\<lparr>dest := x\<rparr>)) = Some d" using Some by simp
    from shapeHash_dest_gone [OF this, of "dest s" ad cur] None show ?thesis by auto
  next
    case s: (Some d')
    with Some assms(1) have "d \<noteq> d'" by auto
    with assms(2) [OF Some s] shapeHash_dest_same_flag [OF s Some] shapeHash_dest_same_length [OF s Some]
    show ?thesis by blast
  qed
qed

text \<open>
  C6, as amended. The hash changes when the preview flag changes, when the shorten flag
  of an arrow changes, and when the origin changes. It changes when the destination, the
  brush id, the piece colour, the piece role, the piece scale or the modifier line width
  changes between two values that are not both falsy (absent, empty or zero); for the
  destination, provided the shorten flag stays the same or the two squares are written
  with the same number of characters. When the markup text changes, the hash stays the
  same exactly when both texts are falsy or both are truthy with the same 32-bit rolling
  hash.
\<close>

theorem shapeHash_discriminates:
  "shapeHash s ad True \<noteq> shapeHash s ad False
   \<and> (ifTruthy (dest s) = Some d \<and> (getOr0 ad d > 1) \<noteq> (getOr0 ad' d > 1)
        \<longrightarrow> shapeHash s ad' cur \<noteq> shapeHash s ad cur)
   \<and> (x \<noteq> orig s \<longrightarrow> shapeHash (s\<lparr>orig := x\<rparr>) ad cur \<noteq> shapeHash s ad cur)
   \<and> (ifTruthy y \<noteq> ifTruthy (dest s)
        \<and> (\<forall>e e'. ifTruthy y = Some e \<and> ifTruthy (dest s) = Some e'
               \<longrightarrow> (getOr0 ad e > 1) = (getOr0 ad e' > 1) \<or> length e = length e')
        \<longrightarrow> shapeHash (s\<lparr>dest := y\<rparr>) ad cur \<noteq> shapeHash s ad cur)
   \<and> (ifTruthy b \<noteq> ifTruthy (brush s)
        \<longrightarrow> shapeHash (s\<lparr>brush := b\<rparr>) ad cur \<noteq> shapeHash s ad cur)
   \<and> (modifiers s = Some \<lparr>m_lineWidth = w\<rparr> \<and> w' \<noteq> w \<and> (truthy (optNum w') \<or> truthy (optNum w))
        \<longrightarrow> shapeHash (s\<lparr>modifiers := Some \<lparr>m_lineWidth = w'\<rparr>\<rparr>) ad cur \<noteq> shapeHash s ad cur)
   \<and> (piece t = Some p \<and> c \<noteq> p_color p
        \<longrightarrow> shapeHash (t\<lparr>piece := Some (p\<lparr>p_color := c\<rparr>)\<rparr>) ad cur \<noteq> shapeHash t ad cur)
   \<and> (piece t = Some p \<and> r \<noteq> p_role p
        \<longrightarrow> shapeHash (t\<lparr>piece := Some (p\<lparr>p_role := r\<rparr>)\<rparr>) ad cur \<noteq> shapeHash t ad cur)
   \<and> (piece t = Some p \<and> z \<noteq> p_scale p \<and> (truthy (optNum z) \<or> truthy (optNum (p_scale p)))
        \<longrightarrow> shapeHash (t\<lparr>piece := Some (p\<lparr>p_scale := z\<rparr>)\<rparr>) ad cur \<noteq> shapeHash t ad cur)
   \<and> (shapeHash (u\<lparr>customSvg := m\<rparr>) ad cur = shapeHash u ad cur
        \<longleftrightarrow> (case (ifTruthy m, ifTruthy (customSvg u)) of
               (None, None) \<Rightarrow> True
             | (Some v, Some v') \<Rightarrow> rollingHash 0 v = rollingHash 0 v'
             | _ \<Rightarrow> False))"
proof -
  have brush_case: "ifTruthy b \<noteq> ifTruthy (brush s)
      \<Longrightarrow> shapeHash (s\<lparr>brush := b\<rparr>) ad cur \<noteq> shapeHash s ad cur"
    by (rule shapeHash_brush) (auto simp add: ifTruthy_def split: option.splits if_splits)
  have dest_case: "ifTruthy y \<noteq> ifTruthy (dest s)
        \<and> (\<forall>e e'. ifTruthy y = Some e \<and> ifTruthy (dest s) = Some e'
               \<longrightarrow> (getOr0 ad e > 1) = (getOr0 ad e' > 1) \<or> length e = length e')
      \<Longrightarrow> shapeHash (s\<lparr>dest := y\<rparr>) ad cur \<noteq> shapeHash s ad cur"
    by (rule shapeHash_dest) blast+
  have mod_case: "modifiers s = Some \<lparr>m_lineWidth = w\<rparr> \<and> w' \<noteq> w \<and> (truthy (optNum w') \<or> truthy (optNum w))
      \<Longrightarrow> shapeHash (s\<lparr>modifiers := Some \<lparr>m_lineWidth = w'\<rparr>\<rparr>) ad cur \<noteq> shapeHash s ad cur"
    using shapeHash_modifiers [of s "\<lparr>m_lineWidth = w\<rparr>" "\<lparr>m_lineWidth = w'\<rparr>" ad cur]
      modifiersHash_lineWidth [of w' w] by blast
  have color_case: "piece t = Some p \<and> c \<noteq> p_color p
      \<Longrightarrow> shapeHash (t\<lparr>piece := Some (p\<lparr>p_color := c\<rparr>)\<rparr>) ad cur \<noteq> shapeHash t ad cur"
    using shapeHash_piece [of t p "p\<lparr>p_color := c\<rparr>" ad cur] pieceHash_color [of c p] by blast
  have role_case: "piece t = Some p \<and> r \<noteq> p_role p
      \<Longrightarrow> shapeHash (t\<lparr>piece := Some (p\<lparr>p_role := r\<rparr>)\<rparr>) ad cur \<noteq> shapeHash t ad cur"
    using shapeHash_piece [of t p "p\<lparr>p_role := r\<rparr>" ad cur] pieceHash_role [of r p] by blast
  have scale_case: "piece t = Some p \<and> z \<noteq> p_scale p \<and> (truthy (optNum z) \<or> truthy (optNum (p_scale p)))
      \<Longrightarrow> shapeHash (t\<lparr>piece := Some (p\<lparr>p_scale := z\<rparr>)\<rparr>) ad cur \<noteq> shapeHash t ad cur"
    using shapeHash_piece [of t p "p\<lparr>p_scale := z\<rparr>" ad cur] pieceHash_scale [of z p] by blast
  show ?thesis
    using shapeHash_preview [of s ad] shapeHash_shorten [of s d ad ad' cur]
      shapeHash_orig [of x s ad cur] dest_case brush_case mod_case color_case role_case scale_case
      shapeHash_customSvg [of m u ad cur]
    by blast
qed

theorem shapeHash_discriminates_witness:
  "shapeHash (thickArrow ''a1'' ''a8'' 5) Map.empty True \<noteq> shapeHash (thickArrow ''a1'' ''a8'' 5) Map.empty False
   \<and> ifTruthy (dest (thickArrow ''a1'' ''a8'' 5)) = Some ''a8''
   \<and> (getOr0 Map.empty ''a8'' > 1) \<noteq> (getOr0 [''a8'' \<mapsto> 2] ''a8'' > 1)
   \<and> shapeHash (thickArrow ''a1'' ''a8'' 5) [''a8'' \<mapsto> 2] False
       \<noteq> shapeHash (thickArrow ''a1'' ''a8'' 5) Map.empty False
   \<and> ''b1'' \<noteq> orig (thickArrow ''a1'' ''a8'' 5)
   \<and> shapeHash ((thickArrow ''a1'' ''a8'' 5)\<lparr>orig := ''b1''\<rparr>) Map.empty False
       \<noteq> shapeHash (thickArrow ''a1'' ''a8'' 5) Map.empty False
   \<and> ifTruthy (Some ''h8'') \<noteq> ifTruthy (dest (thickArrow ''a1'' ''a8'' 5))
   \<and> (getOr0 Map.empty ''h8'' > 1) = (getOr0 Map.empty ''a8'' > 1)
   \<and> shapeHash ((thickArrow ''a1'' ''a8'' 5)\<lparr>dest := Some ''h8''\<rparr>) Map.empty False
       \<noteq> shapeHash (thickArrow ''a1'' ''a8'' 5) Map.empty False
   \<and> ifTruthy (Some ''red'') \<noteq> ifTruthy (brush (thickArrow ''a1'' ''a8'' 5))
   \<and> shapeHash ((thickArrow ''a1'' ''a8'' 5)\<lparr>brush := Some ''red''\<rparr>) Map.empty False
       \<noteq> shapeHash (thickArrow ''a1'' ''a8'' 5) Map.empty False
   \<and> modifiers (thickArrow ''a1'' ''a8'' 5) = Some \<lparr>m_lineWidth = Some 5\<rparr>
   \<and> Some 7 \<noteq> Some (5::int) \<and> truthy (optNum (Some 7))
   \<and> shapeHash ((thickArrow ''a1'' ''a8'' 5)\<lparr>modifiers := Some \<lparr>m_lineWidth = Some 7\<rparr>\<rparr>) Map.empty False
       \<noteq> shapeHash (thickArrow ''a1'' ''a8'' 5) Map.empty False
   \<and> piece (glyph ''e4'' whiteKnight) = Some whiteKnight
   \<and> ''black'' \<noteq> p_color whiteKnight
   \<and> shapeHash ((glyph ''e4'' whiteKnight)\<lparr>piece := Some (whiteKnight\<lparr>p_color := ''black''\<rparr>)\<rparr>) Map.empty False
       \<noteq> shapeHash (glyph ''e4'' whiteKnight) Map.empty False
   \<and> ''queen'' \<noteq> p_role whiteKnight
   \<and> shapeHash ((glyph ''e4'' whiteKnight)\<lparr>piece := Some (whiteKnight\<lparr>p_role := ''queen''\<rparr>)\<rparr>) Map.empty False
       \<noteq> shapeHash (glyph ''e4'' whiteKnight) Map.empty False
   \<and> Some 3 \<noteq> p_scale whiteKnight \<and> truthy (optNum (Some 3))
   \<and> shapeHash ((glyph ''e4'' whiteKnight)\<lparr>piece := Some (whiteKnight\<lparr>p_scale := Some 3\<rparr>)\<rparr>) Map.empty False
       \<noteq> shapeHash (glyph ''e4'' whiteKnight) Map.empty False
   \<and> (shapeHash ((markup ''a1'' ''Aa'')\<lparr>customSvg := Some ''BB''\<rparr>) Map.empty False
        = shapeHash (markup ''a1'' ''Aa'') Map.empty False)
      = (case (ifTruthy (Some ''BB''), ifTruthy (customSvg (markup ''a1'' ''Aa''))) of
               (None, None) \<Rightarrow> True
             | (Some v, Some v') \<Rightarrow> rollingHash 0 v = rollingHash 0 v'
             | _ \<Rightarrow> False)"
proof -
  note T = shapeHash_discriminates [where s = "thickArrow ''a1'' ''a8'' 5" and ad = Map.empty
      and ad' = "[''a8'' \<mapsto> 2]" and d = "''a8''" and cur = False and x = "''b1''"
      and y = "Some ''h8''" and b = "Some ''red''" and w = "Some 5" and w' = "Some 7"
      and t = "glyph ''e4'' whiteKnight" and p = whiteKnight and c = "''black''"
      and r = "''queen''" and z = "Some 3" and u = "markup ''a1'' ''Aa''" and m = "Some ''BB''"]
  have h1: "ifTruthy (dest (thickArrow ''a1'' ''a8'' 5)) = Some ''a8''"
    by (simp add: thickArrow_def ifTruthy_def)
  have h2: "(getOr0 Map.empty ''a8'' > 1) \<noteq> (getOr0 [''a8'' \<mapsto> 2] ''a8'' > 1)"
    by (simp add: getOr0_def)
  have h3: "''b1'' \<noteq> orig (thickArrow ''a1'' ''a8'' 5)"
    by (simp add: thickArrow_def)
  have h4: "ifTruthy (Some ''h8'') \<noteq> ifTruthy (dest (thickArrow ''a1'' ''a8'' 5))"
    by (simp add: thickArrow_def ifTruthy_def)
  have h5: "(getOr0 Map.empty ''h8'' > 1) = (getOr0 Map.empty ''a8'' > 1)"
    by (simp add: getOr0_def)
  have h5': "\<forall>e e'. ifTruthy (Some ''h8'') = Some e \<and> ifTruthy (dest (thickArrow ''a1'' ''a8'' 5)) = Some e'
       \<longrightarrow> (getOr0 Map.empty e > 1) = (getOr0 Map.empty e' > 1) \<or> length e = length e'"
    by (simp add: getOr0_def)
  have h6: "ifTruthy (Some ''red'') \<noteq> ifTruthy (brush (thickArrow ''a1'' ''a8'' 5))"
    by (simp add: thickArrow_def ifTruthy_def)
  have h7: "modifiers (thickArrow ''a1'' ''a8'' 5) = Some \<lparr>m_lineWidth = Some 5\<rparr>"
    by (simp add: thickArrow_def)
  have h8: "Some 7 \<noteq> Some (5::int)" "truthy (optNum (Some 7))"
    by (simp_all add: optNum_def)
  have h9: "piece (glyph ''e4'' whiteKnight) = Some whiteKnight"
    by (simp add: glyph_def)
  have h10: "''black'' \<noteq> p_color whiteKnight" "''queen'' \<noteq> p_role whiteKnight"
    "Some 3 \<noteq> p_scale whiteKnight" "truthy (optNum (Some 3))"
    by (simp_all add: whiteKnight_def optNum_def)
  show ?thesis
    using T h1 h2 h3 h4 h5 h5' h6 h7 h8 h9 h10 by blast
qed

text \<open>
  C6 as stated fails: the markup texts \<^verbatim>\<open>Aa\<close> and \<^verbatim>\<open>BB\<close> have the same rolling hash, so two
  shapes that differ in their markup text only have the same identity hash; and a
  modifier line width that changes from absent to \<open>0\<close> leaves the hash as it was.
\<close>

theorem shapeHash_collides:
  "''Aa'' \<noteq> ''BB''
   \<and> shapeHash (markup ''a1'' ''Aa'') emptyDests False = shapeHash (markup ''a1'' ''BB'') emptyDests False
   \<and> None \<noteq> Some (0::int)
   \<and> shapeHash ((arrow ''a1'' ''a8'')\<lparr>modifiers := Some \<lparr>m_lineWidth = None\<rparr>\<rparr>) emptyDests False
       = shapeHash ((arrow ''a1'' ''a8'')\<lparr>modifiers := Some \<lparr>m_lineWidth = Some 0\<rparr>\<rparr>) emptyDests False"
  by (simp add: shapeHash_def shapeHashTokens_def markup_def arrow_def customSvgHash_def andAlso_def
      optStr_def optNum_def emptyDests_def modifiersHash_def toUint32_def shiftLeft_def toInt32_def charCode_def)

section \<open>Arrow destinations and the shorten flag\<close>

lemma getOr0_upd: "getOr0 (m(d \<mapsto> v)) k = (if k = d then v else getOr0 m k)"
  by (simp add: getOr0_def)

lemma getOr0_countDests:
  "getOr0 (countDests ss m) k = getOr0 m k + length (arrowsInto k ss)"
proof (induction ss arbitrary: m)
  case Nil
  show ?case by (simp add: arrowsInto_def)
next
  case (Cons s ss)
  show ?case
  proof (cases "ifTruthy (dest s)")
    case None
    with Cons show ?thesis by (simp add: arrowsInto_def)
  next
    case (Some d)
    have "getOr0 (countDests ss (m(d \<mapsto> getOr0 m d + 1))) k
        = getOr0 (m(d \<mapsto> getOr0 m d + 1)) k + length (arrowsInto k ss)"
      by (rule Cons)
    with Some show ?thesis
      by (simp add: arrowsInto_def getOr0_upd)
  qed
qed

lemma getOr0_arrowDestsOf: "getOr0 (arrowDestsOf d) k = length (arrowsInto k (allShapes d))"
  by (simp add: arrowDestsOf_def allShapes_def getOr0_countDests) (simp add: getOr0_def)

lemma origins_le: "length (originsInto k ss) \<le> length (arrowsInto k ss)"
  unfolding originsInto_def using length_remdups_leq [of "map orig (arrowsInto k ss)"] by simp

lemma hashedShapes_shape: "map shape (hashedShapes d) = allShapes d"
  by (simp add: hashedShapes_def allShapes_def Let_def comp_def)

lemma hashedShapes_hash:
  "sc \<in> set (hashedShapes d) \<Longrightarrow> hash sc = shapeHash (shape sc) (arrowDestsOf d) (current sc)"
  by (auto simp add: hashedShapes_def Let_def)

lemma token4:
  "ifTruthy (dest s) = Some k \<Longrightarrow> shapeHashTokens s ad cur ! 4 = JBool (getOr0 ad k > 1)"
  by (auto simp add: shapeHashTokens_def ifTruthy_def andAlso_def eval_nat_numeral split: option.splits if_splits)

lemma renderShape_arrow:
  assumes "ifTruthy (customSvg (shape sc)) = None" "piece (shape sc) = None"
    "ifTruthy (dest (shape sc)) = Some k" "lookupBrush bs (brush (shape sc)) = Some b0"
  shows "renderShape key2pos st sc bs ad n =
    Inr (setCgHash (fst (renderArrow
            (case modifiers (shape sc) of None \<Rightarrow> b0 | Some m \<Rightarrow> makeCustomBrush b0 m)
            (orient (key2pos (orig (shape sc))) (orientation st))
            (orient (key2pos k) (orientation st))
            (current sc) (getOr0 ad k > 1) n)) (hash sc), Suc n)"
  using assms by (simp add: renderShape_def Let_def renderArrow_def createElement_def split: prod.splits)

text \<open>
  C5, as amended. The count kept for a square is the number of arrow shapes that end on
  it among the static shapes, the auto shapes and the preview shape, each shape counted
  once, whatever its origin. The shorten flag that enters the hash of an arrow into the
  square (the fifth entry of the array of \<^verbatim>\<open>shapeHash\<close>) and the one passed to
  \<^verbatim>\<open>renderArrow\<close> are both true exactly when that number is at least two. So arrows from
  two or more distinct origins are all flagged, and a single arrow is not.
\<close>

theorem shorten_flag_counts_arrows:
  "getOr0 (arrowDestsOf d) k = length (arrowsInto k (allShapes d))
   \<and> map shape (hashedShapes d) = allShapes d
   \<and> (sc \<in> set (hashedShapes d) \<and> ifTruthy (dest (shape sc)) = Some k
        \<longrightarrow> hash sc = shapeHash (shape sc) (arrowDestsOf d) (current sc)
          \<and> shapeHashTokens (shape sc) (arrowDestsOf d) (current sc) ! 4
              = JBool (2 \<le> length (arrowsInto k (allShapes d))))
   \<and> (ifTruthy (customSvg (shape sc)) = None \<and> piece (shape sc) = None
        \<and> ifTruthy (dest (shape sc)) = Some k \<and> lookupBrush bs (brush (shape sc)) = Some brs
        \<longrightarrow> renderShape key2pos st sc bs (arrowDestsOf d) n =
            Inr (setCgHash (fst (renderArrow
                   (case modifiers (shape sc) of None \<Rightarrow> brs | Some m \<Rightarrow> makeCustomBrush brs m)
                   (orient (key2pos (orig (shape sc))) (orientation st))
                   (orient (key2pos k) (orientation st))
                   (current sc) (2 \<le> length (arrowsInto k (allShapes d))) n)) (hash sc), Suc n))
   \<and> (2 \<le> length (originsInto k (allShapes d)) \<longrightarrow> 2 \<le> length (arrowsInto k (allShapes d)))"
proof -
  have flag: "(getOr0 (arrowDestsOf d) k > 1) = (2 \<le> length (arrowsInto k (allShapes d)))"
    by (auto simp add: getOr0_arrowDestsOf)
  have a: "sc \<in> set (hashedShapes d) \<and> ifTruthy (dest (shape sc)) = Some k
        \<Longrightarrow> hash sc = shapeHash (shape sc) (arrowDestsOf d) (current sc)
          \<and> shapeHashTokens (shape sc) (arrowDestsOf d) (current sc) ! 4
              = JBool (2 \<le> length (arrowsInto k (allShapes d)))"
    using hashedShapes_hash [of sc d] token4 [of "shape sc" k "arrowDestsOf d" "current sc"] flag
    by simp
  have b: "ifTruthy (customSvg (shape sc)) = None \<and> piece (shape sc) = None
        \<and> ifTruthy (dest (shape sc)) = Some k \<and> lookupBrush bs (brush (shape sc)) = Some brs
        \<Longrightarrow> renderShape key2pos st sc bs (arrowDestsOf d) n =
            Inr (setCgHash (fst (renderArrow
                   (case modifiers (shape sc) of None \<Rightarrow> brs | Some m \<Rightarrow> makeCustomBrush brs m)
                   (orient (key2pos (orig (shape sc))) (orientation st))
                   (orient (key2pos k) (orientation st))
                   (current sc) (2 \<le> length (arrowsInto k (allShapes d))) n)) (hash sc), Suc n)"
    using renderShape_arrow [of sc k bs brs key2pos st "arrowDestsOf d" n] flag by simp
  have c: "2 \<le> length (originsInto k (allShapes d)) \<Longrightarrow> 2 \<le> length (arrowsInto k (allShapes d))"
    using origins_le [of k "allShapes d"] by simp
  show ?thesis using getOr0_arrowDestsOf [of d k] hashedShapes_shape [of d] a b c by blast
qed

lemma sample_hashed:
  "hashedShapes (drawable (sampleState [arrow ''a1'' ''a8''] [arrow ''b1'' ''a8''] None None))
    = [\<lparr>shape = arrow ''a1'' ''a8'', current = False, hash = ''a1,a8,green,true''\<rparr>,
       \<lparr>shape = arrow ''b1'' ''a8'', current = False, hash = ''b1,a8,green,true''\<rparr>]"
  by (simp add: hashedShapes_def arrowDestsOf_def curShape_def sampleState_def
        arrow_def shapeHash_def shapeHashTokens_def optStr_def optList_def ifTruthy_def andAlso_def
        getOr0_def)

theorem shorten_flag_counts_arrows_witness:
  "\<lparr>shape = arrow ''a1'' ''a8'', current = False, hash = ''a1,a8,green,true''\<rparr>
      \<in> set (hashedShapes (drawable (sampleState [arrow ''a1'' ''a8''] [arrow ''b1'' ''a8''] None None)))
   \<and> ifTruthy (dest (arrow ''a1'' ''a8'')) = Some ''a8''
   \<and> ifTruthy (customSvg (arrow ''a1'' ''a8'')) = None \<and> piece (arrow ''a1'' ''a8'') = None
   \<and> lookupBrush sampleBrushes (brush (arrow ''a1'' ''a8'')) = Some green
   \<and> 2 \<le> length (originsInto ''a8''
          (allShapes (drawable (sampleState [arrow ''a1'' ''a8''] [arrow ''b1'' ''a8''] None None))))
   \<and> 2 \<le> length (arrowsInto ''a8''
          (allShapes (drawable (sampleState [arrow ''a1'' ''a8''] [arrow ''b1'' ''a8''] None None))))
   \<and> shapeHashTokens (arrow ''a1'' ''a8'')
        (arrowDestsOf (drawable (sampleState [arrow ''a1'' ''a8''] [arrow ''b1'' ''a8''] None None))) False ! 4
       = JBool True"
proof -
  let ?d = "drawable (sampleState [arrow ''a1'' ''a8''] [arrow ''b1'' ''a8''] None None)"
  let ?sc = "\<lparr>shape = arrow ''a1'' ''a8'', current = False, hash = ''a1,a8,green,true''\<rparr>"
  note T = shorten_flag_counts_arrows [where d = ?d and k = "''a8''" and sc = ?sc
      and bs = sampleBrushes and brs = green and key2pos = sampleKey2pos
      and st = "sampleState [arrow ''a1'' ''a8''] [arrow ''b1'' ''a8''] None None" and n = 0]
  have h1: "?sc \<in> set (hashedShapes ?d)" by (simp add: sample_hashed)
  have h2: "ifTruthy (dest (shape ?sc)) = Some ''a8''" "ifTruthy (customSvg (shape ?sc)) = None"
    "piece (shape ?sc) = None" "lookupBrush sampleBrushes (brush (shape ?sc)) = Some green"
    by (simp_all add: arrow_def ifTruthy_def lookupBrush_def sampleBrushes_def)
  have h3: "2 \<le> length (originsInto ''a8'' (allShapes ?d))"
    by (simp add: originsInto_def arrowsInto_def allShapes_def sampleState_def curShape_def
        optList_def arrow_def ifTruthy_def)
  from T h1 h2 h3 have "2 \<le> length (arrowsInto ''a8'' (allShapes ?d))"
    and "shapeHashTokens (shape ?sc) (arrowDestsOf ?d) (current ?sc) ! 4
       = JBool (2 \<le> length (arrowsInto ''a8'' (allShapes ?d)))" by blast+
  with h1 h2 h3 show ?thesis by simp
qed

text \<open>
  C5 as stated fails: with the same arrow among the static shapes and among the auto
  shapes, the square receives arrows from one origin only, and the flag is true.
\<close>

theorem shorten_flag_single_origin:
  "originsInto ''a8''
      (allShapes (drawable (sampleState [arrow ''a1'' ''a8''] [arrow ''a1'' ''a8''] None None))) = [''a1'']
   \<and> shapeHashTokens (arrow ''a1'' ''a8'')
        (arrowDestsOf (drawable (sampleState [arrow ''a1'' ''a8''] [arrow ''a1'' ''a8''] None None))) False ! 4
       = JBool True
   \<and> map hash (hashedShapes (drawable (sampleState [arrow ''a1'' ''a8''] [arrow ''a1'' ''a8''] None None)))
       = [''a1,a8,green,true'', ''a1,a8,green,true'']"
  by (simp add: originsInto_def arrowsInto_def allShapes_def hashedShapes_def arrowDestsOf_def
      curShape_def sampleState_def arrow_def shapeHash_def shapeHashTokens_def optStr_def
      optList_def ifTruthy_def andAlso_def getOr0_def)

lemma arrowsInto_append: "arrowsInto k (xs @ ys) = arrowsInto k xs @ arrowsInto k ys"
  by (simp add: arrowsInto_def)

lemma curShape_None [simp]: "curShape (d\<lparr>d_current := None\<rparr>) = None"
  by (simp add: curShape_def)

lemma allShapes_no_preview: "allShapes (d\<lparr>d_current := None\<rparr>) = shapes d @ autoShapes d"
  by (simp add: allShapes_def optList_def)

lemma curShape_active:
  "d_current d = Some c \<Longrightarrow> ifTruthy (c_mouseSq c) \<noteq> None \<Longrightarrow> curShape d = Some (asDrawShape c)"
  by (auto simp add: curShape_def split: option.splits)

text \<open>
  C8. The destination counts are computed over the static shapes, the auto shapes and
  the preview shape (the shape being drawn, once its \<^verbatim>\<open>mouseSq\<close> is set). A preview shape
  with a destination adds one to the count of that square. When exactly one committed
  arrow ends there, its shorten flag is false without the preview and true with it, and
  its hash changes, though none of its own fields did.
\<close>

theorem preview_counts_as_arrow:
  "(d_current d = Some c \<and> ifTruthy (c_mouseSq c) \<noteq> None
      \<longrightarrow> allShapes d = shapes d @ autoShapes d @ [asDrawShape c]
        \<and> arrowDestsOf d = countDests (shapes d @ autoShapes d @ [asDrawShape c]) Map.empty)
   \<and> (d_current d = Some c \<and> ifTruthy (c_mouseSq c) \<noteq> None \<and> ifTruthy (dest (asDrawShape c)) = Some k
      \<longrightarrow> getOr0 (arrowDestsOf d) k = getOr0 (arrowDestsOf (d\<lparr>d_current := None\<rparr>)) k + 1)
   \<and> (d_current d = Some c \<and> ifTruthy (c_mouseSq c) \<noteq> None \<and> ifTruthy (dest (asDrawShape c)) = Some k
        \<and> ifTruthy (dest s) = Some k \<and> arrowsInto k (shapes d @ autoShapes d) = [s]
      \<longrightarrow> shapeHashTokens s (arrowDestsOf (d\<lparr>d_current := None\<rparr>)) False ! 4 = JBool False
        \<and> shapeHashTokens s (arrowDestsOf d) False ! 4 = JBool True
        \<and> shapeHash s (arrowDestsOf d) False \<noteq> shapeHash s (arrowDestsOf (d\<lparr>d_current := None\<rparr>)) False)"
proof -
  have a: "allShapes d = shapes d @ autoShapes d @ [asDrawShape c]
        \<and> arrowDestsOf d = countDests (shapes d @ autoShapes d @ [asDrawShape c]) Map.empty"
    if "d_current d = Some c \<and> ifTruthy (c_mouseSq c) \<noteq> None"
    using curShape_active [of d c] that by (simp add: allShapes_def arrowDestsOf_def optList_def)
  have b: "getOr0 (arrowDestsOf d) k = getOr0 (arrowDestsOf (d\<lparr>d_current := None\<rparr>)) k + 1"
    if "d_current d = Some c \<and> ifTruthy (c_mouseSq c) \<noteq> None \<and> ifTruthy (dest (asDrawShape c)) = Some k"
  proof -
    have "arrowsInto k [asDrawShape c] = [asDrawShape c]"
      using that by (simp add: arrowsInto_def)
    then have "length (arrowsInto k (allShapes d)) = length (arrowsInto k (shapes d @ autoShapes d)) + 1"
      using a that by (simp add: arrowsInto_append)
    then show ?thesis by (simp add: getOr0_arrowDestsOf allShapes_no_preview)
  qed
  have c: "shapeHashTokens s (arrowDestsOf (d\<lparr>d_current := None\<rparr>)) False ! 4 = JBool False
        \<and> shapeHashTokens s (arrowDestsOf d) False ! 4 = JBool True
        \<and> shapeHash s (arrowDestsOf d) False \<noteq> shapeHash s (arrowDestsOf (d\<lparr>d_current := None\<rparr>)) False"
    if h: "d_current d = Some c \<and> ifTruthy (c_mouseSq c) \<noteq> None \<and> ifTruthy (dest (asDrawShape c)) = Some k
        \<and> ifTruthy (dest s) = Some k \<and> arrowsInto k (shapes d @ autoShapes d) = [s]"
  proof -
    have n0: "getOr0 (arrowDestsOf (d\<lparr>d_current := None\<rparr>)) k = 1"
      using h by (simp add: getOr0_arrowDestsOf allShapes_no_preview)
    with b h have n1: "getOr0 (arrowDestsOf d) k = 2" by simp
    have "(getOr0 (arrowDestsOf (d\<lparr>d_current := None\<rparr>)) k > 1) \<noteq> (getOr0 (arrowDestsOf d) k > 1)"
      by (simp add: n0 n1)
    with h have "shapeHash s (arrowDestsOf d) False \<noteq> shapeHash s (arrowDestsOf (d\<lparr>d_current := None\<rparr>)) False"
      by (intro shapeHash_shorten [of s k]) simp_all
    moreover have "shapeHashTokens s (arrowDestsOf (d\<lparr>d_current := None\<rparr>)) False ! 4 = JBool False"
      using h token4 [of s k "arrowDestsOf (d\<lparr>d_current := None\<rparr>)" False] by (simp add: n0)
    moreover have "shapeHashTokens s (arrowDestsOf d) False ! 4 = JBool True"
      using h token4 [of s k "arrowDestsOf d" False] by (simp add: n1)
    ultimately show ?thesis by simp
  qed
  show ?thesis using a b c by blast
qed

theorem preview_counts_as_arrow_witness:
  "d_current (drawable (sampleState [arrow ''a1'' ''a8''] [] (Some (dragging ''b1'' ''a8'')) None))
      = Some (dragging ''b1'' ''a8'')
   \<and> ifTruthy (c_mouseSq (dragging ''b1'' ''a8'')) \<noteq> None
   \<and> ifTruthy (dest (asDrawShape (dragging ''b1'' ''a8''))) = Some ''a8''
   \<and> ifTruthy (dest (arrow ''a1'' ''a8'')) = Some ''a8''
   \<and> arrowsInto ''a8'' (shapes (drawable (sampleState [arrow ''a1'' ''a8''] [] (Some (dragging ''b1'' ''a8'')) None))
        @ autoShapes (drawable (sampleState [arrow ''a1'' ''a8''] [] (Some (dragging ''b1'' ''a8'')) None)))
       = [arrow ''a1'' ''a8'']
   \<and> shapeHash (arrow ''a1'' ''a8'')
         (arrowDestsOf (drawable (sampleState [arrow ''a1'' ''a8''] [] (Some (dragging ''b1'' ''a8'')) None))) False
       \<noteq> shapeHash (arrow ''a1'' ''a8'')
         (arrowDestsOf ((drawable (sampleState [arrow ''a1'' ''a8''] [] (Some (dragging ''b1'' ''a8'')) None))
            \<lparr>d_current := None\<rparr>)) False
   \<and> getOr0 (arrowDestsOf (drawable (sampleState [arrow ''a1'' ''a8''] [] (Some (dragging ''b1'' ''a8'')) None))) ''a8''
       = getOr0 (arrowDestsOf ((drawable (sampleState [arrow ''a1'' ''a8''] [] (Some (dragging ''b1'' ''a8'')) None))
            \<lparr>d_current := None\<rparr>)) ''a8'' + 1"
proof -
  let ?d = "drawable (sampleState [arrow ''a1'' ''a8''] [] (Some (dragging ''b1'' ''a8'')) None)"
  note T = preview_counts_as_arrow [where d = ?d and c = "dragging ''b1'' ''a8''" and k = "''a8''"
      and s = "arrow ''a1'' ''a8''"]
  have h1: "d_current ?d = Some (dragging ''b1'' ''a8'')" by (simp add: sampleState_def)
  have h2: "ifTruthy (c_mouseSq (dragging ''b1'' ''a8'')) \<noteq> None"
    "ifTruthy (dest (asDrawShape (dragging ''b1'' ''a8''))) = Some ''a8''"
    "ifTruthy (dest (arrow ''a1'' ''a8'')) = Some ''a8''"
    by (simp_all add: dragging_def arrow_def ifTruthy_def)
  have h3: "arrowsInto ''a8'' (shapes ?d @ autoShapes ?d) = [arrow ''a1'' ''a8'']"
    by (simp add: sampleState_def arrowsInto_def arrow_def ifTruthy_def)
  show ?thesis using T h1 h2 h3 by blast
qed

section \<open>The geometry of an arrow\<close>

lemma sqrt_ratio:
  assumes "x \<noteq> 0"
  shows "sqrt (1 + (y / x)\<^sup>2) = sqrt (x\<^sup>2 + y\<^sup>2) / \<bar>x\<bar>"
proof -
  have "1 + (y / x)\<^sup>2 = (x\<^sup>2 + y\<^sup>2) / x\<^sup>2"
    using assms by (simp add: field_simps power2_eq_square)
  then show ?thesis by (simp add: real_sqrt_divide)
qed

lemma cos_arctan_ratio:
  assumes "x \<noteq> 0"
  shows "cos (arctan (y / x)) = \<bar>x\<bar> / sqrt (x\<^sup>2 + y\<^sup>2)"
  using assms by (simp add: cos_arctan sqrt_ratio)

lemma sin_arctan_ratio:
  assumes "x \<noteq> 0"
  shows "sin (arctan (y / x)) = (y / x) * \<bar>x\<bar> / sqrt (x\<^sup>2 + y\<^sup>2)"
  using assms by (simp add: sin_arctan sqrt_ratio)

lemma cos_atan2:
  assumes "x \<noteq> 0 \<or> y \<noteq> 0"
  shows "cos (atan2 y x) = x / sqrt (x\<^sup>2 + y\<^sup>2)"
proof -
  consider "x > 0" | "x < 0" | "x = 0" "y \<noteq> 0" using assms by fastforce
  then show ?thesis
  proof cases
    case 1
    then show ?thesis by (simp add: atan2_def cos_arctan_ratio)
  next
    case 2
    then show ?thesis by (simp add: atan2_def cos_arctan_ratio cos_diff cos_add)
  next
    case 3
    then show ?thesis by (simp add: atan2_def)
  qed
qed

lemma sin_atan2:
  assumes "x \<noteq> 0 \<or> y \<noteq> 0"
  shows "sin (atan2 y x) = y / sqrt (x\<^sup>2 + y\<^sup>2)"
proof -
  consider "x > 0" | "x < 0" | "x = 0" "y > 0" | "x = 0" "y < 0" using assms by fastforce
  then show ?thesis
  proof cases
    case 1
    then show ?thesis by (simp add: atan2_def sin_arctan_ratio)
  next
    case 2
    then show ?thesis by (simp add: atan2_def sin_arctan_ratio sin_diff sin_add)
  next
    case 3
    then show ?thesis by (simp add: atan2_def)
  next
    case 4
    then have "sqrt (y\<^sup>2) = - y" by (simp add: real_sqrt_abs)
    with 4 show ?thesis by (simp add: atan2_def)
  qed
qed

lemma renderArrow_attrs:
  "attributes (fst (renderArrow br p q cur shorten n)) =
     [(''stroke'', AStr (b_color br)),
      (''stroke-width'', ANum (lineWidth br cur)),
      (''stroke-linecap'', AStr ''round''),
      (''marker-end'', AStr (''url(#arrowhead-'' @ b_key br @ '')'')),
      (''opacity'', ANum (opacity br cur)),
      (''x1'', ANum (of_int (fst (pos2user p)))),
      (''y1'', ANum (of_int (snd (pos2user p)))),
      (''x2'', ANum (of_int (fst (pos2user q))
          - cos (atan2 (snd (arrowVector p q)) (fst (arrowVector p q))) * arrowMargin (shorten \<and> \<not> cur))),
      (''y2'', ANum (of_int (snd (pos2user q))
          - sin (atan2 (snd (arrowVector p q)) (fst (arrowVector p q))) * arrowMargin (shorten \<and> \<not> cur)))]"
  by (simp add: renderArrow_def Let_def createElement_def setAttributes_def setAttribute_def arrowVector_def)

lemma arrowVector_nonzero: "p \<noteq> q \<Longrightarrow> fst (arrowVector p q) \<noteq> 0 \<or> snd (arrowVector p q) \<noteq> 0"
  by (cases p; cases q) (auto simp add: arrowVector_def pos2user_def)

text \<open>
  C9, as amended. The line of an arrow ends short of the centre of its destination
  square by a margin, taken along the angle of the line (for distinct squares, along the
  unit vector from start to end). The margin is the increased \<open>20/64\<close> when the shorten
  flag is true and the arrow is not the preview, and \<open>10/64\<close> otherwise. The preview flag
  also scales the stroke width by \<open>0.85\<close> and the opacity by \<open>0.9\<close>. Numbers are
  idealised as reals.
\<close>

theorem renderArrow_margin_and_endpoint:
  "arrowMargin (shorten \<and> \<not> cur) = (if shorten \<and> \<not> cur then 20 / 64 else 10 / 64)
   \<and> numAttr (fst (renderArrow br p q cur shorten n)) ''x1'' = Some (of_int (fst (pos2user p)))
   \<and> numAttr (fst (renderArrow br p q cur shorten n)) ''y1'' = Some (of_int (snd (pos2user p)))
   \<and> numAttr (fst (renderArrow br p q cur shorten n)) ''x2''
       = Some (of_int (fst (pos2user q))
           - cos (atan2 (snd (arrowVector p q)) (fst (arrowVector p q))) * arrowMargin (shorten \<and> \<not> cur))
   \<and> numAttr (fst (renderArrow br p q cur shorten n)) ''y2''
       = Some (of_int (snd (pos2user q))
           - sin (atan2 (snd (arrowVector p q)) (fst (arrowVector p q))) * arrowMargin (shorten \<and> \<not> cur))
   \<and> (p \<noteq> q \<longrightarrow>
        cos (atan2 (snd (arrowVector p q)) (fst (arrowVector p q)))
          = fst (arrowVector p q) / sqrt ((fst (arrowVector p q))\<^sup>2 + (snd (arrowVector p q))\<^sup>2)
      \<and> sin (atan2 (snd (arrowVector p q)) (fst (arrowVector p q)))
          = snd (arrowVector p q) / sqrt ((fst (arrowVector p q))\<^sup>2 + (snd (arrowVector p q))\<^sup>2))
   \<and> numAttr (fst (renderArrow br p q cur shorten n)) ''stroke-width''
       = Some ((if b_lineWidth br \<noteq> 0 then b_lineWidth br else 10) * (if cur then 0.85 else 1) / 64)
   \<and> numAttr (fst (renderArrow br p q cur shorten n)) ''opacity''
       = Some ((if b_opacity br \<noteq> 0 then b_opacity br else 1) * (if cur then 0.9 else 1))"
proof -
  have dir: "cos (atan2 (snd (arrowVector p q)) (fst (arrowVector p q)))
          = fst (arrowVector p q) / sqrt ((fst (arrowVector p q))\<^sup>2 + (snd (arrowVector p q))\<^sup>2)
      \<and> sin (atan2 (snd (arrowVector p q)) (fst (arrowVector p q)))
          = snd (arrowVector p q) / sqrt ((fst (arrowVector p q))\<^sup>2 + (snd (arrowVector p q))\<^sup>2)"
    if "p \<noteq> q"
    using arrowVector_nonzero [OF that] by (simp add: cos_atan2 sin_atan2)
  have attrs: "numAttr (fst (renderArrow br p q cur shorten n)) ''x1'' = Some (of_int (fst (pos2user p)))"
    "numAttr (fst (renderArrow br p q cur shorten n)) ''y1'' = Some (of_int (snd (pos2user p)))"
    "numAttr (fst (renderArrow br p q cur shorten n)) ''x2''
       = Some (of_int (fst (pos2user q))
           - cos (atan2 (snd (arrowVector p q)) (fst (arrowVector p q))) * arrowMargin (shorten \<and> \<not> cur))"
    "numAttr (fst (renderArrow br p q cur shorten n)) ''y2''
       = Some (of_int (snd (pos2user q))
           - sin (atan2 (snd (arrowVector p q)) (fst (arrowVector p q))) * arrowMargin (shorten \<and> \<not> cur))"
    "numAttr (fst (renderArrow br p q cur shorten n)) ''stroke-width''
       = Some ((if b_lineWidth br \<noteq> 0 then b_lineWidth br else 10) * (if cur then 0.85 else 1) / 64)"
    "numAttr (fst (renderArrow br p q cur shorten n)) ''opacity''
       = Some ((if b_opacity br \<noteq> 0 then b_opacity br else 1) * (if cur then 0.9 else 1))"
    by (simp_all add: numAttr_def renderArrow_attrs lineWidth_def opacity_def)
  have m: "arrowMargin (shorten \<and> \<not> cur) = (if shorten \<and> \<not> cur then 20 / 64 else 10 / 64)"
    by (simp add: arrowMargin_def)
  show ?thesis using dir attrs m by blast
qed

theorem renderArrow_margin_and_endpoint_witness:
  "((0, 0) :: Pos) \<noteq> (7, 0)
   \<and> cos (atan2 (snd (arrowVector (0, 0) (7, 0))) (fst (arrowVector (0, 0) (7, 0))))
       = fst (arrowVector (0, 0) (7, 0))
          / sqrt ((fst (arrowVector (0, 0) (7, 0)))\<^sup>2 + (snd (arrowVector (0, 0) (7, 0)))\<^sup>2)
   \<and> arrowMargin (True \<and> \<not> False) = 20 / 64
   \<and> numAttr (fst (renderArrow green (0, 0) (7, 0) False True 0)) ''x2''
       = Some (of_int (fst (pos2user (7, 0)))
           - cos (atan2 (snd (arrowVector (0, 0) (7, 0))) (fst (arrowVector (0, 0) (7, 0))))
             * arrowMargin (True \<and> \<not> False))"
proof -
  have h: "((0, 0) :: Pos) \<noteq> (7, 0)" by simp
  show ?thesis
    using h renderArrow_margin_and_endpoint [where p = "(0, 0)" and q = "(7, 0)" and cur = False
        and shorten = True and br = green and n = 0]
    by simp
qed

text \<open>
  C9 as stated fails: with a committed arrow \<^verbatim>\<open>b2\<close> to \<^verbatim>\<open>h1\<close> and a preview arrow \<^verbatim>\<open>a1\<close> to
  \<^verbatim>\<open>h1\<close>, two arrows end on \<^verbatim>\<open>h1\<close> and the shorten flag of the preview arrow is true,
  but its line is drawn with the margin \<open>10/64\<close>.
\<close>

theorem renderArrow_preview_keeps_margin:
  "getOr0 (arrowDestsOf (drawable (sampleState [arrow ''b2'' ''h1''] [] (Some (dragging ''a1'' ''h1'')) None))) ''h1'' = 2
   \<and> (case renderShape sampleKey2pos
            (sampleState [arrow ''b2'' ''h1''] [] (Some (dragging ''a1'' ''h1'')) None)
            \<lparr>shape = asDrawShape (dragging ''a1'' ''h1''), current = True, hash = ''true,a1,h1,green,true''\<rparr>
            sampleBrushes
            (arrowDestsOf (drawable (sampleState [arrow ''b2'' ''h1''] [] (Some (dragging ''a1'' ''h1'')) None)))
            0 of
         Inr (el, n) \<Rightarrow> numAttr el ''x1'' = Some 0 \<and> numAttr el ''x2'' = Some (7 - 10 / 64)
       | Inl e \<Rightarrow> False)
   \<and> numAttr (fst (renderArrow green (0, 0) (7, 0) True True 0)) ''x2'' = Some (7 - 10 / 64)
   \<and> (7 - 10 / 64 :: real) \<noteq> 7 - 20 / 64"
  by (simp add: renderShape_def Let_def renderArrow_def arrowMargin_def pos2user_def atan2_def
      createElement_def setAttributes_def setAttribute_def setCgHash_def numAttr_def orient_def
      sampleKey2pos_def sampleState_def sampleBrushes_def green_def dragging_def
      arrow_def arrowDestsOf_def curShape_def optList_def ifTruthy_def getOr0_def lookupBrush_def
      charCode_def)

section \<open>The whole-cycle short circuit\<close>

lemma fullHashOf_prevSvgHash [simp]: "fullHashOf (d\<lparr>prevSvgHash := x\<rparr>) = fullHashOf d"
  by (simp add: fullHashOf_def hashedShapes_def arrowDestsOf_def curShape_def)

lemma renderSvg_skip:
  "Some (fullHashOf (drawable st)) = prevSvgHash (drawable st) \<Longrightarrow> renderSvg k st doc = ((st, doc), None)"
  by (simp add: renderSvg_def Let_def)

lemma renderSvg_state:
  "fst (fst (renderSvg k st doc))
     = st\<lparr>drawable := (drawable st)\<lparr>prevSvgHash := Some (fullHashOf (drawable st))\<rparr>\<rparr>"
proof (cases "Some (fullHashOf (drawable st)) = prevSvgHash (drawable st)")
  case True
  have "st\<lparr>drawable := (drawable st)\<lparr>prevSvgHash := prevSvgHash (drawable st)\<rparr>\<rparr> = st" by simp
  with True show ?thesis by (simp add: renderSvg_skip)
next
  case False
  then show ?thesis
    by (simp add: renderSvg_def Let_def split: sum.splits prod.splits option.splits)
qed

lemma renderSvg_twice:
  "renderSvg k (fst (fst (renderSvg k st doc))) (snd (fst (renderSvg k st doc)))
     = (fst (renderSvg k st doc), None)"
proof -
  have "renderSvg k (fst (fst (renderSvg k st doc))) (snd (fst (renderSvg k st doc)))
        = ((fst (fst (renderSvg k st doc)), snd (fst (renderSvg k st doc))), None)"
    by (rule renderSvg_skip) (simp add: renderSvg_state)
  then show ?thesis by simp
qed

text \<open>
  C3. When the full hash of the cycle (the hashes of the shapes joined with \<^verbatim>\<open>;\<close>) equals
  the stored \<^verbatim>\<open>prevSvgHash\<close>, \<^verbatim>\<open>renderSvg\<close> returns at once: the state and the three
  containers are as before and nothing is thrown. In every case the state it leaves is
  the state it was given with \<^verbatim>\<open>prevSvgHash\<close> set to the full hash, also when the
  reconciliation that follows throws. Hence a second call on what the first call left
  changes nothing.
\<close>

theorem renderSvg_short_circuit:
  "(Some (fullHashOf (drawable st)) = prevSvgHash (drawable st)
      \<longrightarrow> renderSvg k st doc = ((st, doc), None))
   \<and> fst (fst (renderSvg k st' doc'))
       = st'\<lparr>drawable := (drawable st')\<lparr>prevSvgHash := Some (fullHashOf (drawable st'))\<rparr>\<rparr>
   \<and> renderSvg k (fst (fst (renderSvg k st' doc'))) (snd (fst (renderSvg k st' doc')))
       = (fst (renderSvg k st' doc'), None)"
  using renderSvg_skip [of st k doc] renderSvg_state [of k st' doc'] renderSvg_twice [of k st' doc']
  by blast

theorem renderSvg_short_circuit_witness:
  "Some (fullHashOf (drawable (sampleState [arrow ''a1'' ''a8''] [] None (Some ''a1,a8,green''))))
     = prevSvgHash (drawable (sampleState [arrow ''a1'' ''a8''] [] None (Some ''a1,a8,green'')))
   \<and> renderSvg sampleKey2pos (sampleState [arrow ''a1'' ''a8''] [] None (Some ''a1,a8,green'')) emptyDoc
       = ((sampleState [arrow ''a1'' ''a8''] [] None (Some ''a1,a8,green''), emptyDoc), None)
   \<and> fst (fst (renderSvg sampleKey2pos (sampleState [arrow ''a1'' ''a8''] [] None None) emptyDoc))
       = (sampleState [arrow ''a1'' ''a8''] [] None None)
           \<lparr>drawable := (drawable (sampleState [arrow ''a1'' ''a8''] [] None None))
              \<lparr>prevSvgHash := Some (fullHashOf (drawable (sampleState [arrow ''a1'' ''a8''] [] None None)))\<rparr>\<rparr>
   \<and> renderSvg sampleKey2pos
        (fst (fst (renderSvg sampleKey2pos (sampleState [arrow ''a1'' ''a8''] [] None None) emptyDoc)))
        (snd (fst (renderSvg sampleKey2pos (sampleState [arrow ''a1'' ''a8''] [] None None) emptyDoc)))
       = (fst (renderSvg sampleKey2pos (sampleState [arrow ''a1'' ''a8''] [] None None) emptyDoc), None)"
proof -
  have h: "Some (fullHashOf (drawable (sampleState [arrow ''a1'' ''a8''] [] None (Some ''a1,a8,green''))))
     = prevSvgHash (drawable (sampleState [arrow ''a1'' ''a8''] [] None (Some ''a1,a8,green'')))"
    by (simp add: fullHashOf_def hashedShapes_def arrowDestsOf_def curShape_def sampleState_def
        arrow_def shapeHash_def shapeHashTokens_def optStr_def optList_def ifTruthy_def andAlso_def
        getOr0_def)
  show ?thesis
    using h renderSvg_short_circuit [of "sampleState [arrow ''a1'' ''a8''] [] None (Some ''a1,a8,green'')"
        sampleKey2pos emptyDoc "sampleState [arrow ''a1'' ''a8''] [] None None" emptyDoc]
    by blast
qed

section \<open>Properties of the shape synchroniser\<close>

lemma targets_init:
  "foldl (\<lambda>m sc. m(hash sc \<mapsto> False)) m0 scs h
     = (if h \<in> hash ` set scs then Some False else m0 h)"
  by (induction scs arbitrary: m0) auto

lemma hasHash_upd: "m h \<noteq> None \<Longrightarrow> hasHash (m(h \<mapsto> b)) = hasHash m"
  by (auto simp add: hasHash_def fun_eq_iff split: option.splits)

lemma scanChildren_toRemove:
  "snd (scanChildren els m rem) = rem @ filter (\<lambda>el. \<not> hasHash m el) els"
proof (induction els arbitrary: m rem)
  case Nil
  show ?case by simp
next
  case (Cons el els)
  show ?case
  proof (cases "cgHash el")
    case None
    then show ?thesis by (simp add: Cons hasHash_def)
  next
    case (Some h)
    show ?thesis
    proof (cases "m h")
      case None
      with Some show ?thesis by (simp add: Cons hasHash_def)
    next
      case s: (Some b)
      then have k: "hasHash (m(h \<mapsto> True)) = hasHash m" by (intro hasHash_upd) simp
      have "snd (scanChildren (el # els) m rem) = snd (scanChildren els (m(h \<mapsto> True)) rem)"
        using Some s by simp
      also have "\<dots> = rem @ filter (\<lambda>el. \<not> hasHash (m(h \<mapsto> True)) el) els" by (rule Cons)
      also have "\<dots> = rem @ filter (\<lambda>el. \<not> hasHash m el) els" by (simp only: k)
      also have "\<dots> = rem @ filter (\<lambda>el. \<not> hasHash m el) (el # els)"
        using Some s by (simp add: hasHash_def)
      finally show ?thesis .
    qed
  qed
qed

lemma scanChildren_map:
  "fst (scanChildren els m rem) h
     = (if m h \<noteq> None \<and> Some h \<in> cgHash ` set els then Some True else m h)"
proof (induction els arbitrary: m rem)
  case Nil
  show ?case by simp
next
  case (Cons el els)
  show ?case
  proof (cases "cgHash el")
    case None
    then show ?thesis by (simp add: Cons) 
  next
    case (Some g)
    show ?thesis
    proof (cases "m g")
      case None
      with Some show ?thesis by (auto simp add: Cons)
    next
      case s: (Some b)
      with Some show ?thesis by (auto simp add: Cons)
    qed
  qed
qed

lemma remove_collected:
  assumes "\<forall>y \<in> set ys. \<not> Q y"
  shows "foldl removeChild (ys @ xs) (filter Q xs) = ys @ filter (\<lambda>x. \<not> Q x) xs"
  using assms
proof (induction xs arbitrary: ys)
  case Nil
  show ?case by simp
next
  case (Cons x xs)
  show ?case
  proof (cases "Q x")
    case True
    with Cons.prems have "x \<notin> set ys" by auto
    then have "remove1 x (ys @ x # xs) = ys @ xs" by (simp add: remove1_append)
    with True Cons.IH [OF Cons.prems] show ?thesis by (simp add: removeChild_def)
  next
    case False
    with Cons.prems have "\<forall>y \<in> set (ys @ [x]). \<not> Q y" by simp
    from Cons.IH [OF this] False show ?thesis by simp
  qed
qed

lemma hasHash_targets:
  "hasHash (foldl (\<lambda>m sc. m(hash sc \<mapsto> False)) Map.empty scs) el = matched scs el"
  by (auto simp add: hasHash_def matched_def targets_init split: option.splits)

lemma setAttribute_fields [simp]:
  "ident (setAttribute el k v) = ident el" "cgHash (setAttribute el k v) = cgHash el"
  "cgKey (setAttribute el k v) = cgKey el"
  by (simp_all add: setAttribute_def)

lemma setAttributes_fields [simp]:
  "ident (setAttributes el kvs) = ident el" "cgHash (setAttributes el kvs) = cgHash el"
  "cgKey (setAttributes el kvs) = cgKey el"
  unfolding setAttributes_def by (induction kvs arbitrary: el) (simp_all add: split_def)

lemma appendChild_fields [simp]:
  "ident (appendChild el c) = ident el" "cgHash (appendChild el c) = cgHash el"
  "cgKey (appendChild el c) = cgKey el"
  by (simp_all add: appendChild_def)

lemma setCgHash_fields [simp]:
  "ident (setCgHash el h) = ident el" "cgHash (setCgHash el h) = Some h"
  by (simp_all add: setCgHash_def)

lemma setCgKey_fields [simp]:
  "ident (setCgKey el k) = ident el" "cgKey (setCgKey el k) = Some k"
  by (simp_all add: setCgKey_def)

lemma createElement_fields [simp]:
  "ident (fst (createElement tag n)) = n" "snd (createElement tag n) = Suc n"
  by (simp_all add: createElement_def)

lemma renderCustomSvg_fresh:
  "renderCustomSvg c pos n = (el, n') \<Longrightarrow> ident el = n \<and> n < n'"
  by (auto simp add: renderCustomSvg_def Let_def split_def)

lemma renderCircle_fresh:
  "renderCircle br pos cur n = (el, n') \<Longrightarrow> ident el = n \<and> n < n'"
  by (auto simp add: renderCircle_def Let_def split_def)

lemma renderArrow_fresh:
  "renderArrow br p q cur shorten n = (el, n') \<Longrightarrow> ident el = n \<and> n < n'"
  by (auto simp add: renderArrow_def Let_def split_def)

lemma renderPiece_fresh:
  "renderPiece base pos p n = Inr (el, n') \<Longrightarrow> ident el = n \<and> n < n'"
  by (auto simp add: renderPiece_def Let_def split_def split: option.splits if_splits)

lemma renderPiece_fails: "(\<exists>e. renderPiece base pos p n = Inl e) \<longleftrightarrow> p_role p = []"
  by (auto simp add: renderPiece_def Let_def split_def split: option.splits list.splits)

lemma renderMarker_fresh:
  "ident (fst (renderMarker br n)) = n \<and> n < snd (renderMarker br n)
   \<and> cgKey (fst (renderMarker br n)) = Some (b_key br)"
  by (simp add: renderMarker_def Let_def split_def)

lemma renderShape_Inr:
  assumes "renderShape key2pos st sc bs ad n = Inr (el, n')"
  shows "cgHash el = Some (hash sc) \<and> ident el = n \<and> n < n'"
proof (cases "ifTruthy (customSvg (shape sc))")
  case (Some c)
  with assms show ?thesis
    by (auto simp add: renderShape_def Let_def split: prod.splits dest: renderCustomSvg_fresh)
next
  case None
  show ?thesis
  proof (cases "piece (shape sc)")
    case (Some p)
    with None assms show ?thesis
      by (auto simp add: renderShape_def Let_def split: prod.splits sum.splits dest: renderPiece_fresh)
  next
    case np: None
    show ?thesis
    proof (cases "lookupBrush bs (brush (shape sc))")
      case None
      with \<open>ifTruthy (customSvg (shape sc)) = None\<close> np assms show ?thesis
        by (auto simp add: renderShape_def Let_def split: option.splits)
    next
      case (Some b0)
      with \<open>ifTruthy (customSvg (shape sc)) = None\<close> np assms show ?thesis
        by (cases "ifTruthy (dest (shape sc))")
          (auto simp add: renderShape_def Let_def split: prod.splits
            dest: renderCircle_fresh renderArrow_fresh)
    qed
  qed
qed

lemma renderShape_fails:
  "(\<exists>e. renderShape key2pos st sc bs ad n = Inl e) \<longleftrightarrow> \<not> canRender bs sc"
proof (cases "ifTruthy (customSvg (shape sc))")
  case (Some c)
  then show ?thesis
    by (auto simp add: renderShape_def canRender_def Let_def split: prod.splits)
next
  case None
  show ?thesis
  proof (cases "piece (shape sc)")
    case (Some p)
    have "(\<exists>e. renderShape key2pos st sc bs ad n = Inl e)
        \<longleftrightarrow> (\<exists>e. renderPiece (baseUrl (drawable st))
              (orient (key2pos (orig (shape sc))) (orientation st)) p n = Inl e)"
      using None Some by (auto simp add: renderShape_def Let_def split: prod.splits sum.splits)
    then show ?thesis using None Some by (simp add: renderPiece_fails canRender_def)
  next
    case np: None
    show ?thesis
    proof (cases "lookupBrush bs (brush (shape sc))")
      case None
      with \<open>ifTruthy (customSvg (shape sc)) = None\<close> np show ?thesis
        by (auto simp add: renderShape_def canRender_def Let_def split: option.splits)
    next
      case (Some b0)
      with \<open>ifTruthy (customSvg (shape sc)) = None\<close> np show ?thesis
        by (cases "ifTruthy (dest (shape sc))")
          (auto simp add: renderShape_def canRender_def Let_def split: prod.splits)
    qed
  qed
qed

lemma appendShapes_result:
  assumes "appendShapes key2pos st m bs ad scs rootEl n = ((root', n'), err)"
  shows "\<exists>news. root' = rootEl @ news \<and> n \<le> n'
      \<and> (\<forall>e \<in> set news. n \<le> ident e \<and> ident e < n' \<and> matched scs e)
      \<and> (err = None \<longrightarrow> map cgHash news
            = map (\<lambda>sc. Some (hash sc)) (filter (\<lambda>sc. m (hash sc) \<noteq> Some True) scs))"
  using assms
proof (induction scs arbitrary: rootEl n)
  case Nil
  then show ?case by simp
next
  case (Cons sc scs)
  show ?case
  proof (cases "m (hash sc) \<noteq> Some True")
    case False
    with Cons.prems have "appendShapes key2pos st m bs ad scs rootEl n = ((root', n'), err)"
      by simp
    from Cons.IH [OF this] False show ?thesis by (auto simp add: matched_def)
  next
    case True
    show ?thesis
    proof (cases "renderShape key2pos st sc bs ad n")
      case (Inl e)
      with True Cons.prems show ?thesis by auto
    next
      case (Inr r)
      obtain el n1 where r: "r = (el, n1)" by (cases r)
      from renderShape_Inr [OF Inr [unfolded r]]
      have el: "cgHash el = Some (hash sc)" "ident el = n" "n < n1" by simp_all
      from True Inr r Cons.prems
      have "appendShapes key2pos st m bs ad scs (rootEl @ [el]) n1 = ((root', n'), err)" by simp
      from Cons.IH [OF this] obtain news where news: "root' = (rootEl @ [el]) @ news" "n1 \<le> n'"
        "\<forall>e \<in> set news. n1 \<le> ident e \<and> ident e < n' \<and> matched scs e"
        "err = None \<longrightarrow> map cgHash news
            = map (\<lambda>sc. Some (hash sc)) (filter (\<lambda>sc. m (hash sc) \<noteq> Some True) scs)"
        by blast
      have "root' = rootEl @ (el # news)" using news(1) by simp
      moreover have "n \<le> n'" using el(3) news(2) by simp
      moreover have "\<forall>e \<in> set (el # news). n \<le> ident e \<and> ident e < n' \<and> matched (sc # scs) e"
        using el news(2,3) by (auto simp add: matched_def)
      moreover have "err = None \<longrightarrow> map cgHash (el # news)
            = map (\<lambda>sc. Some (hash sc)) (filter (\<lambda>sc. m (hash sc) \<noteq> Some True) (sc # scs))"
        using True el(1) news(4) by simp
      ultimately show ?thesis by blast
    qed
  qed
qed

lemma appendShapes_ok:
  assumes "\<forall>sc \<in> set scs. canRender bs sc"
  shows "snd (appendShapes key2pos st m bs ad scs rootEl n) = None"
  using assms
proof (induction scs arbitrary: rootEl n)
  case Nil
  show ?case by simp
next
  case (Cons sc scs)
  then have "canRender bs sc" by simp
  then have "\<not> (\<exists>e. renderShape key2pos st sc bs ad n = Inl e)" by (simp add: renderShape_fails)
  then obtain el n1 where "renderShape key2pos st sc bs ad n = Inr (el, n1)"
    by (cases "renderShape key2pos st sc bs ad n") auto
  with Cons show ?case by simp
qed

lemma syncShapes_unfold:
  "syncShapes key2pos st scs bs ad rootEl n =
     appendShapes key2pos st
       (fst (scanChildren rootEl (foldl (\<lambda>m sc. m(hash sc \<mapsto> False)) Map.empty scs) []))
       bs ad scs (filter (matched scs) rootEl) n"
proof -
  let ?m0 = "foldl (\<lambda>m sc. m(hash sc \<mapsto> False)) Map.empty scs"
  have "foldl removeChild ([] @ rootEl) (filter (\<lambda>el. \<not> hasHash ?m0 el) rootEl)
      = [] @ filter (\<lambda>x. \<not> \<not> hasHash ?m0 x) rootEl"
    by (rule remove_collected) simp
  then have "foldl removeChild rootEl (snd (scanChildren rootEl ?m0 [])) = filter (matched scs) rootEl"
    by (simp add: scanChildren_toRemove hasHash_targets)
  then show ?thesis by (simp add: syncShapes_def Let_def split_def)
qed

lemma scanned_flag:
  "sc \<in> set scs \<Longrightarrow>
    (fst (scanChildren rootEl (foldl (\<lambda>m sc. m(hash sc \<mapsto> False)) Map.empty scs) []) (hash sc) \<noteq> Some True)
      = (Some (hash sc) \<notin> cgHash ` set rootEl)"
  by (simp add: scanChildren_map targets_init)

lemma syncShapes_result:
  assumes "syncShapes key2pos st scs bs ad rootEl n = ((root', n'), err)"
  shows "\<exists>news. root' = filter (matched scs) rootEl @ news \<and> n \<le> n'
      \<and> (\<forall>e \<in> set news. n \<le> ident e \<and> ident e < n' \<and> matched scs e)
      \<and> (err = None \<longrightarrow> map cgHash news
            = map (\<lambda>sc. Some (hash sc)) (filter (\<lambda>sc. Some (hash sc) \<notin> cgHash ` set rootEl) scs))"
proof -
  let ?m = "fst (scanChildren rootEl (foldl (\<lambda>m sc. m(hash sc \<mapsto> False)) Map.empty scs) [])"
  have "filter (\<lambda>sc. ?m (hash sc) \<noteq> Some True) scs
      = filter (\<lambda>sc. Some (hash sc) \<notin> cgHash ` set rootEl) scs"
    by (rule filter_cong) (simp_all add: scanned_flag)
  with appendShapes_result [OF assms [unfolded syncShapes_unfold]] show ?thesis by simp
qed

lemma syncShapes_ok:
  "\<forall>sc \<in> set scs. canRender bs sc \<Longrightarrow> snd (syncShapes key2pos st scs bs ad rootEl n) = None"
  by (simp add: syncShapes_unfold appendShapes_ok)

lemma distinct_map_Some: "distinct (map (\<lambda>x. Some (f x)) xs) = distinct (map f xs)"
  by (induction xs) auto

text \<open>
  C4. One pass of \<^verbatim>\<open>syncShapes\<close> leaves in the container, first and in their order, exactly
  the children it had whose \<^verbatim>\<open>cgHash\<close> is a target hash, each the same element with the same
  number, attributes and content; what follows them are elements created during the pass
  (their numbers are not below the counter the pass started from). So a matched child
  stays, a child that is gone was not matched, and an unmatched child is gone (the
  children before the pass having numbers below the counter). This holds whether or not
  a rendering throws during the pass.
\<close>

theorem syncShapes_keeps_matched_nodes:
  "(\<exists>news. fst (fst (syncShapes key2pos st scs bs ad rootEl n)) = filter (matched scs) rootEl @ news
        \<and> (\<forall>e \<in> set news. n \<le> ident e))
   \<and> (el \<in> set rootEl \<and> matched scs el
        \<longrightarrow> el \<in> set (fst (fst (syncShapes key2pos st scs bs ad rootEl n))))
   \<and> (el' \<in> set rootEl \<and> el' \<notin> set (fst (fst (syncShapes key2pos st scs bs ad rootEl n)))
        \<longrightarrow> \<not> matched scs el')
   \<and> (el' \<in> set rootEl \<and> \<not> matched scs el' \<and> (\<forall>e \<in> set rootEl. ident e < n)
        \<longrightarrow> el' \<notin> set (fst (fst (syncShapes key2pos st scs bs ad rootEl n))))"
proof -
  obtain root' n' err where r: "syncShapes key2pos st scs bs ad rootEl n = ((root', n'), err)"
    by (metis surj_pair)
  from syncShapes_result [OF r] obtain news where
    news: "root' = filter (matched scs) rootEl @ news" "\<forall>e \<in> set news. n \<le> ident e"
    by blast
  have a: "\<exists>news. root' = filter (matched scs) rootEl @ news \<and> (\<forall>e \<in> set news. n \<le> ident e)"
    using news by blast
  have b: "el \<in> set rootEl \<and> matched scs el \<longrightarrow> el \<in> set root'"
    using news(1) by simp
  have b': "el' \<in> set rootEl \<and> el' \<notin> set root' \<longrightarrow> \<not> matched scs el'"
    using news(1) by simp
  have c: "el' \<in> set rootEl \<and> \<not> matched scs el' \<and> (\<forall>e \<in> set rootEl. ident e < n) \<longrightarrow> el' \<notin> set root'"
    using news by fastforce
  show ?thesis using a b b' c by (simp add: r)
qed

theorem syncShapes_keeps_matched_nodes_witness:
  "sampleNode 0 ''a1,green'' \<in> set [sampleNode 0 ''a1,green'', sampleNode 1 ''old'']
   \<and> matched [hashed (circle ''a1'') ''a1,green'', hashed (circle ''b1'') ''b1,green'']
        (sampleNode 0 ''a1,green'')
   \<and> sampleNode 0 ''a1,green'' \<in> set (fst (fst (syncShapes sampleKey2pos (sampleState [] [] None None)
          [hashed (circle ''a1'') ''a1,green'', hashed (circle ''b1'') ''b1,green'']
          sampleBrushes emptyDests [sampleNode 0 ''a1,green'', sampleNode 1 ''old''] 2)))
   \<and> sampleNode 1 ''old'' \<in> set [sampleNode 0 ''a1,green'', sampleNode 1 ''old'']
   \<and> \<not> matched [hashed (circle ''a1'') ''a1,green'', hashed (circle ''b1'') ''b1,green'']
        (sampleNode 1 ''old'')
   \<and> list_all (\<lambda>e. ident e < 2) [sampleNode 0 ''a1,green'', sampleNode 1 ''old'']
   \<and> sampleNode 1 ''old'' \<notin> set (fst (fst (syncShapes sampleKey2pos (sampleState [] [] None None)
          [hashed (circle ''a1'') ''a1,green'', hashed (circle ''b1'') ''b1,green'']
          sampleBrushes emptyDests [sampleNode 0 ''a1,green'', sampleNode 1 ''old''] 2)))"
proof -
  let ?S = "[hashed (circle ''a1'') ''a1,green'', hashed (circle ''b1'') ''b1,green'']"
  let ?R = "[sampleNode 0 ''a1,green'', sampleNode 1 ''old'']"
  note T = syncShapes_keeps_matched_nodes [where key2pos = sampleKey2pos
      and st = "sampleState [] [] None None" and scs = ?S and bs = sampleBrushes and ad = emptyDests
      and rootEl = ?R and n = 2 and el = "sampleNode 0 ''a1,green''" and el' = "sampleNode 1 ''old''"]
  have h1: "sampleNode 0 ''a1,green'' \<in> set ?R" "sampleNode 1 ''old'' \<in> set ?R" by simp_all
  have h2: "matched ?S (sampleNode 0 ''a1,green'')" "\<not> matched ?S (sampleNode 1 ''old'')"
    by (simp_all add: matched_def sampleNode_def hashed_def)
  have h3: "\<forall>e \<in> set ?R. ident e < 2" by (simp add: sampleNode_def)
  have h4: "list_all (\<lambda>e. ident e < 2) ?R" by (simp add: sampleNode_def)
  show ?thesis using T h1 h2 h3 h4 by blast
qed

text \<open>
  C1, as amended. A pass of \<^verbatim>\<open>syncShapes\<close> completes without throwing when every target can
  be rendered. When it completes, the set of \<^verbatim>\<open>cgHash\<close> tags on the children is the set of
  target hashes. When moreover the target hashes are pairwise distinct and no target hash
  was on two children before the pass, the multiset of tags is the multiset of target
  hashes and no hash is on two children (so the next pass starts from such a container
  again).
\<close>

theorem syncShapes_children_hashes:
  "((\<forall>sc \<in> set scs. canRender bs sc) \<longrightarrow> snd (syncShapes key2pos st scs bs ad rootEl n) = None)
   \<and> (snd (syncShapes key2pos st scs bs ad rootEl n) = None
        \<longrightarrow> set (map cgHash (fst (fst (syncShapes key2pos st scs bs ad rootEl n))))
            = set (map (\<lambda>sc. Some (hash sc)) scs))
   \<and> (snd (syncShapes key2pos st scs bs ad rootEl n) = None
        \<and> distinct (map hash scs) \<and> distinct (map cgHash (filter (matched scs) rootEl))
        \<longrightarrow> mset (map cgHash (fst (fst (syncShapes key2pos st scs bs ad rootEl n))))
              = mset (map (\<lambda>sc. Some (hash sc)) scs)
          \<and> distinct (map cgHash (fst (fst (syncShapes key2pos st scs bs ad rootEl n)))))"
proof -
  obtain root' n' err where r: "syncShapes key2pos st scs bs ad rootEl n = ((root', n'), err)"
    by (metis surj_pair)
  let ?kept = "map cgHash (filter (matched scs) rootEl)"
  let ?new = "map (\<lambda>sc. Some (hash sc)) (filter (\<lambda>sc. Some (hash sc) \<notin> cgHash ` set rootEl) scs)"
  let ?tgt = "map (\<lambda>sc. Some (hash sc)) scs"
  have hashes: "map cgHash root' = ?kept @ ?new" if "err = None"
    using syncShapes_result [OF r] that by auto
  have sets: "set (?kept @ ?new) = set ?tgt"
  proof (intro equalityI subsetI)
    fix x assume "x \<in> set (?kept @ ?new)"
    then show "x \<in> set ?tgt" by (auto simp add: matched_def)
  next
    fix x assume "x \<in> set ?tgt"
    then obtain sc where sc: "sc \<in> set scs" "x = Some (hash sc)" by auto
    show "x \<in> set (?kept @ ?new)"
    proof (cases "Some (hash sc) \<in> cgHash ` set rootEl")
      case True
      then obtain el where "el \<in> set rootEl" "cgHash el = Some (hash sc)" by force
      with sc have "el \<in> set (filter (matched scs) rootEl)" "cgHash el = x"
        by (simp_all add: matched_def)
      then show ?thesis by force
    next
      case False
      with sc show ?thesis by force
    qed
  qed
  have disj: "set ?kept \<inter> set ?new = {}"
    by (auto simp add: image_iff)
  have dnew: "distinct ?new" if "distinct (map hash scs)"
  proof -
    have "distinct (map hash (filter (\<lambda>sc. Some (hash sc) \<notin> cgHash ` set rootEl) scs))"
      using that by (rule distinct_map_filter)
    then show ?thesis by (simp only: distinct_map_Some)
  qed
  have dtgt: "distinct ?tgt" if "distinct (map hash scs)"
  proof -
    show ?thesis using that by (simp only: distinct_map_Some)
  qed
  have ok: "(\<forall>sc \<in> set scs. canRender bs sc) \<longrightarrow> err = None"
    using syncShapes_ok [of scs bs key2pos st ad rootEl n] by (simp add: r)
  have s: "err = None \<longrightarrow> set (map cgHash root') = set ?tgt"
    using hashes sets by simp
  have m: "err = None \<and> distinct (map hash scs) \<and> distinct ?kept
      \<longrightarrow> mset (map cgHash root') = mset ?tgt \<and> distinct (map cgHash root')"
  proof (intro impI, elim conjE)
    assume e: "err = None" and d1: "distinct (map hash scs)" and d2: "distinct ?kept"
    have d: "distinct (?kept @ ?new)" using d2 dnew [OF d1] disj by simp
    then have "mset (?kept @ ?new) = mset ?tgt"
      using sets dtgt [OF d1] by (simp only: set_eq_iff_mset_eq_distinct [symmetric])
    with d hashes [OF e] show "mset (map cgHash root') = mset ?tgt \<and> distinct (map cgHash root')"
      by simp
  qed
  show ?thesis using ok s m by (simp add: r)
qed


theorem syncShapes_children_hashes_witness:
  "list_all (canRender sampleBrushes) [hashed (circle ''a1'') ''a1,green'', hashed (circle ''b1'') ''b1,green'']
   \<and> snd (syncShapes sampleKey2pos (sampleState [] [] None None)
          [hashed (circle ''a1'') ''a1,green'', hashed (circle ''b1'') ''b1,green'']
          sampleBrushes emptyDests [sampleNode 0 ''a1,green'', sampleNode 1 ''old''] 2) = None
   \<and> distinct (map hash [hashed (circle ''a1'') ''a1,green'', hashed (circle ''b1'') ''b1,green''])
   \<and> distinct (map cgHash (filter
          (matched [hashed (circle ''a1'') ''a1,green'', hashed (circle ''b1'') ''b1,green''])
          [sampleNode 0 ''a1,green'', sampleNode 1 ''old'']))
   \<and> mset (map cgHash (fst (fst (syncShapes sampleKey2pos (sampleState [] [] None None)
          [hashed (circle ''a1'') ''a1,green'', hashed (circle ''b1'') ''b1,green'']
          sampleBrushes emptyDests [sampleNode 0 ''a1,green'', sampleNode 1 ''old''] 2))))
       = mset [Some ''a1,green'', Some ''b1,green'']
   \<and> distinct (map cgHash (fst (fst (syncShapes sampleKey2pos (sampleState [] [] None None)
          [hashed (circle ''a1'') ''a1,green'', hashed (circle ''b1'') ''b1,green'']
          sampleBrushes emptyDests [sampleNode 0 ''a1,green'', sampleNode 1 ''old''] 2))))"
proof -
  let ?S = "[hashed (circle ''a1'') ''a1,green'', hashed (circle ''b1'') ''b1,green'']"
  let ?R = "[sampleNode 0 ''a1,green'', sampleNode 1 ''old'']"
  note T = syncShapes_children_hashes [where key2pos = sampleKey2pos
      and st = "sampleState [] [] None None" and scs = ?S and bs = sampleBrushes and ad = emptyDests
      and rootEl = ?R and n = 2]
  have h1: "\<forall>sc \<in> set ?S. canRender sampleBrushes sc"
    by (simp add: canRender_def hashed_def circle_def ifTruthy_def lookupBrush_def sampleBrushes_def)
  have h1': "list_all (canRender sampleBrushes) ?S"
    by (simp add: canRender_def hashed_def circle_def ifTruthy_def lookupBrush_def sampleBrushes_def)
  have h2: "distinct (map hash ?S)" by (simp add: hashed_def)
  have h3: "distinct (map cgHash (filter (matched ?S) ?R))"
    by (simp add: matched_def sampleNode_def hashed_def)
  have h4: "map (\<lambda>sc. Some (hash sc)) ?S = [Some ''a1,green'', Some ''b1,green'']"
    by (simp add: hashed_def)
  from T h1 have e: "snd (syncShapes sampleKey2pos (sampleState [] [] None None) ?S
      sampleBrushes emptyDests ?R 2) = None" by blast
  with T h2 h3 have "mset (map cgHash (fst (fst (syncShapes sampleKey2pos (sampleState [] [] None None) ?S
      sampleBrushes emptyDests ?R 2)))) = mset (map (\<lambda>sc. Some (hash sc)) ?S)"
    and "distinct (map cgHash (fst (fst (syncShapes sampleKey2pos (sampleState [] [] None None) ?S
      sampleBrushes emptyDests ?R 2))))" by blast+
  with e h1' h2 h3 show ?thesis by (simp only: h4)
qed

text \<open>
  C1 as stated fails: the same circle among the static shapes and among the auto shapes
  gives two targets with one hash, and on the empty container \<^verbatim>\<open>renderSvg\<close> appends a child
  for each.
\<close>

theorem syncShapes_duplicate_hashes:
  "snd (renderSvg sampleKey2pos (sampleState [circle ''e4''] [circle ''e4''] None None) emptyDoc) = None
   \<and> map cgHash (shapesEl (snd (fst
         (renderSvg sampleKey2pos (sampleState [circle ''e4''] [circle ''e4''] None None) emptyDoc))))
       = [Some ''e4,green'', Some ''e4,green'']
   \<and> \<not> distinct (map cgHash (shapesEl (snd (fst
         (renderSvg sampleKey2pos (sampleState [circle ''e4''] [circle ''e4''] None None) emptyDoc)))))"
proof -
  let ?st = "sampleState [circle ''e4''] [circle ''e4''] None None"
  let ?sc = "\<lparr>shape = circle ''e4'', current = False, hash = ''e4,green''\<rparr>"
  let ?st1 = "?st\<lparr>drawable := (drawable ?st)\<lparr>prevSvgHash := Some ''e4,green;e4,green''\<rparr>\<rparr>"
  have hs: "hashedShapes (drawable ?st) = [?sc, ?sc]"
    by (simp add: hashedShapes_def arrowDestsOf_def curShape_def sampleState_def
        circle_def shapeHash_def shapeHashTokens_def optStr_def optList_def ifTruthy_def)
  have fh: "fullHashOf (drawable ?st) = ''e4,green;e4,green''"
    by (simp add: fullHashOf_def hs)
  have prev: "prevSvgHash (drawable ?st) = None" "brushes (drawable ?st) = sampleBrushes"
    by (simp_all add: sampleState_def)
  have sd: "syncDefs (drawable ?st) [?sc, ?sc] [] 0 = Inr ([], 0)"
    by (simp add: syncDefs_def circle_def ifTruthy_def)
  have custom: "customSvg (circle ''e4'') = None" by (simp add: circle_def)
  have rs: "renderShape sampleKey2pos ?st1 ?sc sampleBrushes ad n
      = Inr (setCgHash (fst (renderCircle green (4, 3) False n)) ''e4,green'', Suc n)" for ad n
    by (simp add: renderShape_def Let_def circle_def ifTruthy_def lookupBrush_def sampleBrushes_def
        orient_def sampleKey2pos_def charCode_def sampleState_def renderCircle_def
        createElement_def split_def)
  have s1: "syncShapes sampleKey2pos ?st1 [?sc, ?sc] sampleBrushes ad [] 0
      = (([setCgHash (fst (renderCircle green (4, 3) False 0)) ''e4,green'',
           setCgHash (fst (renderCircle green (4, 3) False 1)) ''e4,green''], 2), None)" for ad
    by (simp add: syncShapes_def Let_def rs)
  have s2: "syncShapes sampleKey2pos ?st1 [] sampleBrushes ad [] 2 = (([], 2), None)" for ad
    by (simp add: syncShapes_def Let_def)
  have r: "renderSvg sampleKey2pos ?st emptyDoc
      = ((?st1,
          \<lparr>defsEl = [],
           shapesEl = [setCgHash (fst (renderCircle green (4, 3) False 0)) ''e4,green'',
                       setCgHash (fst (renderCircle green (4, 3) False 1)) ''e4,green''],
           customSvgsEl = [], nextId = 2\<rparr>), None)"
    by (simp add: renderSvg_def Let_def fh hs sd prev emptyDoc_def custom optStr_def s1 s2)
  show ?thesis by (simp add: r)
qed

section \<open>Properties of the definitions synchroniser\<close>

lemma set_update_cases:
  "(k', v') \<in> set (AList.update k v al) \<Longrightarrow> (k', v') = (k, v) \<or> (k', v') \<in> set al"
  by (induction al) (auto split: if_splits)

lemma requiredKeys_Cons:
  "requiredKeys bs (sc # scs) =
     (case derivedBrush bs (shape sc) of None \<Rightarrow> [] | Some br \<Rightarrow> [b_key br]) @ requiredKeys bs scs"
  by (simp add: requiredKeys_def List.map_filter_def split: option.splits)

lemma collectBrushes_Inr:
  assumes "collectBrushes bs scs acc = Inr out"
  shows "fst ` set out = fst ` set acc \<union> set (requiredKeys bs scs)
    \<and> (distinct (map fst acc) \<longrightarrow> distinct (map fst out))
    \<and> ((\<forall>(k, br) \<in> set acc. b_key br = k) \<longrightarrow> (\<forall>(k, br) \<in> set out. b_key br = k))"
  using assms
proof (induction scs arbitrary: acc)
  case Nil
  then show ?case by (simp add: requiredKeys_def List.map_filter_def)
next
  case (Cons sc scs)
  show ?case
  proof (cases "ifTruthy (dest (shape sc))")
    case None
    with Cons.prems have "collectBrushes bs scs acc = Inr out" by simp
    from Cons.IH [OF this] None show ?thesis
      by (simp add: requiredKeys_Cons derivedBrush_def)
  next
    case (Some d)
    show ?thesis
    proof (cases "lookupBrush bs (brush (shape sc))")
      case None
      with Some Cons.prems show ?thesis by simp
    next
      case b: (Some b0)
      let ?br = "(case modifiers (shape sc) of None \<Rightarrow> b0 | Some m \<Rightarrow> makeCustomBrush b0 m)"
      let ?acc = "AList.update (b_key ?br) ?br acc"
      from Some b Cons.prems have "collectBrushes bs scs ?acc = Inr out" by (simp add: Let_def)
      from Cons.IH [OF this]
      have ih: "fst ` set out = fst ` set ?acc \<union> set (requiredKeys bs scs)"
        "distinct (map fst ?acc) \<longrightarrow> distinct (map fst out)"
        "(\<forall>(k, br) \<in> set ?acc. b_key br = k) \<longrightarrow> (\<forall>(k, br) \<in> set out. b_key br = k)"
        by simp_all
      have rk: "requiredKeys bs (sc # scs) = b_key ?br # requiredKeys bs scs"
        using Some b by (simp add: requiredKeys_Cons derivedBrush_def)
      have 1: "fst ` set out = fst ` set acc \<union> set (requiredKeys bs (sc # scs))"
        using ih(1) by (simp add: rk AList.dom_update)
      have 2: "distinct (map fst acc) \<longrightarrow> distinct (map fst out)"
        using ih(2) by (simp add: AList.distinct_update)
      have 3: "(\<forall>(k, br) \<in> set acc. b_key br = k) \<longrightarrow> (\<forall>(k, br) \<in> set out. b_key br = k)"
      proof
        assume a: "\<forall>(k, br) \<in> set acc. b_key br = k"
        have "\<forall>(k, br) \<in> set ?acc. b_key br = k"
          using a by (auto dest!: set_update_cases)
        with ih(3) show "\<forall>(k, br) \<in> set out. b_key br = k" by blast
      qed
      from 1 2 3 show ?thesis by blast
    qed
  qed
qed

lemma collectBrushes_ok:
  "arrowsResolve bs scs \<Longrightarrow> \<exists>out. collectBrushes bs scs acc = Inr out"
proof (induction scs arbitrary: acc)
  case Nil
  show ?case by simp
next
  case (Cons sc scs)
  then show ?case
    by (cases "ifTruthy (dest (shape sc))"; cases "lookupBrush bs (brush (shape sc))")
       (simp_all add: arrowsResolve_def Let_def)
qed

lemma collectBrushes_fails:
  "\<not> arrowsResolve bs scs \<Longrightarrow> collectBrushes bs scs acc = Inl TypeError"
proof (induction scs arbitrary: acc)
  case Nil
  then show ?case by (simp add: arrowsResolve_def)
next
  case (Cons sc scs)
  then show ?case
    by (cases "ifTruthy (dest (shape sc))"; cases "lookupBrush bs (brush (shape sc))")
       (simp_all add: arrowsResolve_def Let_def)
qed

lemma appendMarkers_result:
  assumes "appendMarkers keys bs defs n = (defs', n')"
  shows "\<exists>news. defs' = defs @ news \<and> n \<le> n' \<and> (\<forall>e \<in> set news. n \<le> ident e)
     \<and> map cgKey news = map (\<lambda>(k, br). Some (b_key br)) (filter (\<lambda>(k, br). Some k \<notin> set keys) bs)"
  using assms
proof (induction bs arbitrary: defs n)
  case Nil
  then show ?case by simp
next
  case (Cons kb bs)
  obtain k br where kb: "kb = (k, br)" by (cases kb)
  show ?case
  proof (cases "Some k \<notin> set keys")
    case False
    with Cons.prems kb have "appendMarkers keys bs defs n = (defs', n')" by simp
    from Cons.IH [OF this] False kb show ?thesis by simp
  next
    case True
    let ?m = "fst (renderMarker br n)" and ?n1 = "snd (renderMarker br n)"
    from True Cons.prems kb have "appendMarkers keys bs (defs @ [?m]) ?n1 = (defs', n')"
      by (simp add: split_def Let_def)
    from Cons.IH [OF this] obtain news where news: "defs' = (defs @ [?m]) @ news" "?n1 \<le> n'"
      "\<forall>e \<in> set news. ?n1 \<le> ident e"
      "map cgKey news = map (\<lambda>(k, br). Some (b_key br)) (filter (\<lambda>(k, br). Some k \<notin> set keys) bs)"
      by blast
    have f: "ident ?m = n" "n < ?n1" "cgKey ?m = Some (b_key br)"
      using renderMarker_fresh [of br n] by simp_all
    have "defs' = defs @ (?m # news)" using news(1) by simp
    moreover have "n \<le> n'" using f(2) news(2) by simp
    moreover have "\<forall>e \<in> set (?m # news). n \<le> ident e" using f news(3) by auto
    moreover have "map cgKey (?m # news)
        = map (\<lambda>(k, br). Some (b_key br)) (filter (\<lambda>(k, br). Some k \<notin> set keys) (kb # bs))"
      using True kb f(3) news(4) by simp
    ultimately show ?thesis by blast
  qed
qed

lemma syncDefs_result:
  assumes "syncDefs d scs defs n = Inr (defs', n')"
  shows "\<exists>news. defs' = defs @ news \<and> n \<le> n' \<and> (\<forall>e \<in> set news. n \<le> ident e)
     \<and> distinct (map cgKey news)
     \<and> set (map cgKey news) = Some ` set (requiredKeys (brushes d) scs) - set (map cgKey defs)"
proof -
  from assms obtain bs where cb: "collectBrushes (brushes d) scs [] = Inr bs"
    and am: "appendMarkers (map cgKey defs) bs defs n = (defs', n')"
    by (auto simp add: syncDefs_def split: sum.splits)
  from collectBrushes_Inr [OF cb]
  have bs: "fst ` set bs = set (requiredKeys (brushes d) scs)" "distinct (map fst bs)"
    "\<forall>(k, br) \<in> set bs. b_key br = k" by simp_all
  from appendMarkers_result [OF am] obtain news where news: "defs' = defs @ news" "n \<le> n'"
    "\<forall>e \<in> set news. n \<le> ident e"
    "map cgKey news = map (\<lambda>(k, br). Some (b_key br)) (filter (\<lambda>(k, br). Some k \<notin> set (map cgKey defs)) bs)"
    by blast
  have eq: "map (\<lambda>(k, br). Some (b_key br)) (filter (\<lambda>(k, br). Some k \<notin> set (map cgKey defs)) bs)
      = map (\<lambda>kb. Some (fst kb)) (filter (\<lambda>kb. Some (fst kb) \<notin> set (map cgKey defs)) bs)"
    using bs(3) by (intro map_cong) (auto simp add: split_def)
  have "distinct (map fst (filter (\<lambda>kb. Some (fst kb) \<notin> set (map cgKey defs)) bs))"
    using bs(2) by (rule distinct_map_filter)
  then have d: "distinct (map cgKey news)"
    by (simp only: news(4) eq distinct_map_Some)
  have "set (map cgKey news) = Some ` fst ` set bs - set (map cgKey defs)"
    by (simp only: news(4) eq) (auto simp add: image_iff)
  with bs(1) have s: "set (map cgKey news) = Some ` set (requiredKeys (brushes d) scs) - set (map cgKey defs)"
    by simp
  from news(1,2,3) d s show ?thesis by blast
qed

lemma syncDefs_ok:
  "(\<exists>r. syncDefs d scs defs n = Inr r) \<longleftrightarrow> arrowsResolve (brushes d) scs"
proof (cases "arrowsResolve (brushes d) scs")
  case True
  from collectBrushes_ok [OF True, of "[]"] True show ?thesis
    by (auto simp add: syncDefs_def)
next
  case False
  from collectBrushes_fails [OF False, of "[]"] False show ?thesis
    by (simp add: syncDefs_def)
qed

lemma hashedShapes_prevSvgHash [simp]: "hashedShapes (d\<lparr>prevSvgHash := x\<rparr>) = hashedShapes d"
  by (simp add: hashedShapes_def arrowDestsOf_def curShape_def)

lemma arrowDestsOf_prevSvgHash [simp]: "arrowDestsOf (d\<lparr>prevSvgHash := x\<rparr>) = arrowDestsOf d"
  by (simp add: arrowDestsOf_def curShape_def)

lemma syncDefs_prevSvgHash [simp]: "syncDefs (d\<lparr>prevSvgHash := x\<rparr>) scs defs n = syncDefs d scs defs n"
  by (simp add: syncDefs_def)

lemma renderSvg_defs_unchanged:
  assumes "\<not> reconciled st (prevSvgHash (drawable st))"
  shows "defsEl (snd (fst (renderSvg key2pos st doc))) = defsEl doc"
proof (cases "Some (fullHashOf (drawable st)) = prevSvgHash (drawable st)")
  case True
  then show ?thesis by (simp add: renderSvg_skip)
next
  case False
  with assms have "\<not> arrowsResolve (brushes (drawable st)) (hashedShapes (drawable st))"
    by (simp add: reconciled_def)
  then have "\<not> (\<exists>r. syncDefs (drawable st) (hashedShapes (drawable st)) (defsEl doc) (nextId doc) = Inr r)"
    by (simp only: syncDefs_ok) simp
  then obtain e where "syncDefs (drawable st) (hashedShapes (drawable st)) (defsEl doc) (nextId doc) = Inl e"
    by (cases "syncDefs (drawable st) (hashedShapes (drawable st)) (defsEl doc) (nextId doc)") auto
  with False show ?thesis by (simp add: renderSvg_def Let_def)
qed

lemma renderSvg_defs_synced:
  assumes "reconciled st (prevSvgHash (drawable st))"
  shows "\<exists>n'. syncDefs (drawable st) (hashedShapes (drawable st)) (defsEl doc) (nextId doc)
            = Inr (defsEl (snd (fst (renderSvg key2pos st doc))), n')"
proof -
  from assms have ne: "Some (fullHashOf (drawable st)) \<noteq> prevSvgHash (drawable st)"
    and "arrowsResolve (brushes (drawable st)) (hashedShapes (drawable st))"
    by (simp_all add: reconciled_def)
  then obtain defs1 n1 where
    sd: "syncDefs (drawable st) (hashedShapes (drawable st)) (defsEl doc) (nextId doc) = Inr (defs1, n1)"
    using syncDefs_ok [of "drawable st" "hashedShapes (drawable st)" "defsEl doc" "nextId doc"] by auto
  have "defsEl (snd (fst (renderSvg key2pos st doc))) = defs1"
    using ne sd by (simp add: renderSvg_def Let_def split: prod.splits option.splits)
  with sd show ?thesis by blast
qed

lemma renderSvg_defs_step:
  "\<exists>news. defsEl (snd (fst (renderSvg key2pos st doc))) = defsEl doc @ news
     \<and> distinct (map cgKey news)
     \<and> set (map cgKey news)
        = Some ` set (if reconciled st (prevSvgHash (drawable st))
                      then requiredKeys (brushes (drawable st)) (hashedShapes (drawable st)) else [])
          - set (map cgKey (defsEl doc))"
proof (cases "reconciled st (prevSvgHash (drawable st))")
  case True
  from renderSvg_defs_synced [OF True, of doc key2pos] obtain n' where
    "syncDefs (drawable st) (hashedShapes (drawable st)) (defsEl doc) (nextId doc)
       = Inr (defsEl (snd (fst (renderSvg key2pos st doc))), n')" by blast
  from syncDefs_result [OF this] True show ?thesis by auto
next
  case False
  from renderSvg_defs_unchanged [OF False, of key2pos doc] False show ?thesis by simp
qed

lemma reconciled_prev [simp]:
  "reconciled (st\<lparr>drawable := (drawable st)\<lparr>prevSvgHash := prev\<rparr>\<rparr>) prev' = reconciled st prev'"
  by (simp add: reconciled_def)

lemma renderCycles_defs:
  assumes "distinct (map cgKey (defsEl doc))"
  shows "prefix (defsEl doc) (defsEl (snd (renderCycles key2pos sts prev doc)))
    \<and> distinct (map cgKey (defsEl (snd (renderCycles key2pos sts prev doc))))
    \<and> set (map cgKey (defsEl (snd (renderCycles key2pos sts prev doc))))
        = set (map cgKey (defsEl doc)) \<union> Some ` set (requestedKeys key2pos sts prev doc)"
  using assms
proof (induction sts arbitrary: prev doc)
  case Nil
  then show ?case by simp
next
  case (Cons st sts)
  let ?st = "st\<lparr>drawable := (drawable st)\<lparr>prevSvgHash := prev\<rparr>\<rparr>"
  obtain st1 doc1 err where r: "renderSvg key2pos ?st doc = ((st1, doc1), err)"
    by (metis surj_pair)
  from renderSvg_defs_step [of key2pos ?st doc] r obtain news where
    news: "defsEl doc1 = defsEl doc @ news" "distinct (map cgKey news)"
      "set (map cgKey news)
        = Some ` set (if reconciled st prev
                      then requiredKeys (brushes (drawable st)) (hashedShapes (drawable st)) else [])
          - set (map cgKey (defsEl doc))"
    by auto
  have d1: "distinct (map cgKey (defsEl doc1))"
    using Cons.prems news by auto
  from Cons.IH [OF d1, of "prevSvgHash (drawable st1)"]
  have ih: "prefix (defsEl doc1) (defsEl (snd (renderCycles key2pos sts (prevSvgHash (drawable st1)) doc1)))"
    "distinct (map cgKey (defsEl (snd (renderCycles key2pos sts (prevSvgHash (drawable st1)) doc1))))"
    "set (map cgKey (defsEl (snd (renderCycles key2pos sts (prevSvgHash (drawable st1)) doc1))))
        = set (map cgKey (defsEl doc1)) \<union> Some ` set (requestedKeys key2pos sts (prevSvgHash (drawable st1)) doc1)"
    by simp_all
  have p: "prefix (defsEl doc) (defsEl doc1)" using news(1) by simp
  have s1: "set (map cgKey (defsEl doc1)) = set (map cgKey (defsEl doc))
      \<union> Some ` set (if reconciled st prev
                      then requiredKeys (brushes (drawable st)) (hashedShapes (drawable st)) else [])"
    using news(1,3) by auto
  show ?case
    using ih p s1 by (simp add: r image_Un Un_assoc)
qed

lemma renderMarker_next: "snd (renderMarker br n) = Suc (Suc n)"
  by (simp add: renderMarker_def Let_def split_def)

lemma makeCustomBrush_key:
  "b_key (makeCustomBrush b0 m) = b_key b0 @ overrideText (Some m)"
  by (cases "m_lineWidth m"; cases "b_key b0 = []")
     (simp_all add: makeCustomBrush_def overrideText_def optNum_def)

lemma arrowKeys_Cons:
  "arrowKeys bs (s # ss) = (case arrowKey bs s of None \<Rightarrow> [] | Some k \<Rightarrow> [k]) @ arrowKeys bs ss"
  by (simp add: arrowKeys_def List.map_filter_def split: option.splits)

lemma arrowsNamed_required:
  "arrowsNamed bs (map shape scs)
     \<Longrightarrow> arrowsResolve bs scs \<and> requiredKeys bs scs = arrowKeys bs (map shape scs)"
proof (induction scs)
  case Nil
  show ?case by (simp add: arrowsResolve_def requiredKeys_def arrowKeys_def List.map_filter_def)
next
  case (Cons sc scs)
  from Cons.prems have tl: "arrowsNamed bs (map shape scs)"
    by (simp add: arrowsNamed_def)
  from Cons.IH [OF tl] have ih: "arrowsResolve bs scs"
    "requiredKeys bs scs = arrowKeys bs (map shape scs)" by simp_all
  show ?case
  proof (cases "ifTruthy (dest (shape sc))")
    case None
    with ih show ?thesis
      by (simp add: arrowsResolve_def requiredKeys_Cons arrowKeys_Cons derivedBrush_def arrowKey_def)
  next
    case (Some k)
    with Cons.prems obtain name b0 where nb: "brush (shape sc) = Some name" "bs name = Some b0"
      by (auto simp add: arrowsNamed_def split: option.splits)
    have lb: "lookupBrush bs (brush (shape sc)) = Some b0"
      using nb by (simp add: lookupBrush_def)
    have k: "map_option b_key (derivedBrush bs (shape sc)) = arrowKey bs (shape sc)"
      using Some nb lb
      by (cases "modifiers (shape sc)")
         (simp_all add: derivedBrush_def arrowKey_def makeCustomBrush_key overrideText_def)
    have "requiredKeys bs (sc # scs) = arrowKeys bs (map shape (sc # scs))"
      using k ih(2) by (cases "derivedBrush bs (shape sc)"; cases "arrowKey bs (shape sc)")
         (simp_all add: requiredKeys_Cons arrowKeys_Cons)
    moreover have "arrowsResolve bs (sc # scs)"
      using ih(1) lb by (simp add: arrowsResolve_def)
    ultimately show ?thesis by simp
  qed
qed

lemma wellNamed_prev [simp]:
  "wellNamed (st\<lparr>drawable := (drawable st)\<lparr>prevSvgHash := prev\<rparr>\<rparr>) = wellNamed st"
  by (simp add: wellNamed_def allShapes_def curShape_def)

lemma requestedKeys_cycleKeys:
  "list_all wellNamed sts \<Longrightarrow> requestedKeys key2pos sts prev doc = cycleKeys sts prev"
proof (induction sts arbitrary: prev doc)
  case Nil
  show ?case by simp
next
  case (Cons st sts)
  let ?st = "st\<lparr>drawable := (drawable st)\<lparr>prevSvgHash := prev\<rparr>\<rparr>"
  from Cons.prems have wn0: "wellNamed st" and tl: "list_all wellNamed sts" by simp_all
  from wn0 have wn: "arrowsNamed (brushes (drawable st)) (map shape (hashedShapes (drawable st)))"
    by (simp add: wellNamed_def hashedShapes_shape)
  from arrowsNamed_required [OF wn]
  have ar: "arrowsResolve (brushes (drawable st)) (hashedShapes (drawable st))"
    and rk: "requiredKeys (brushes (drawable st)) (hashedShapes (drawable st))
        = arrowKeys (brushes (drawable st)) (allShapes (drawable st))"
    by (simp_all add: hashedShapes_shape)
  obtain st1 doc1 err where r: "renderSvg key2pos ?st doc = ((st1, doc1), err)"
    by (metis surj_pair)
  have "st1 = fst (fst (renderSvg key2pos ?st doc))" by (simp add: r)
  then have p: "prevSvgHash (drawable st1) = Some (fullHashOf (drawable st))"
    by (simp add: renderSvg_state)
  have rc: "reconciled st prev = (Some (fullHashOf (drawable st)) \<noteq> prev)"
    using ar by (simp add: reconciled_def)
  show ?case
    using Cons.IH [OF tl, of "Some (fullHashOf (drawable st))" doc1]
    by (simp add: r p rc rk)
qed

lemma renderMarker_isMarker: "isMarker (fst (renderMarker br n))"
  by (simp add: isMarker_def renderMarker_def createElement_def setAttributes_def setAttribute_def
      appendChild_def setCgKey_def Let_def split_def)

lemma appendMarkers_markers:
  assumes "appendMarkers keys bs defs n = (defs @ news, n')"
  shows "list_all isMarker news"
  using assms
proof (induction bs arbitrary: defs n news)
  case Nil
  then show ?case by simp
next
  case (Cons kb bs)
  obtain k br where kb: "kb = (k, br)" by (cases kb)
  show ?case
  proof (cases "Some k \<notin> set keys")
    case False
    with Cons.prems kb have "appendMarkers keys bs defs n = (defs @ news, n')" by simp
    from Cons.IH [OF this] show ?thesis .
  next
    case True
    let ?m = "fst (renderMarker br n)" and ?n1 = "snd (renderMarker br n)"
    from True Cons.prems kb have am: "appendMarkers keys bs (defs @ [?m]) ?n1 = (defs @ news, n')"
      by (simp add: split_def Let_def)
    from appendMarkers_result [OF am] obtain more where "defs @ news = (defs @ [?m]) @ more"
      by blast
    then have n: "news = ?m # more" by simp
    from am n have "appendMarkers keys bs (defs @ [?m]) ?n1 = ((defs @ [?m]) @ more, n')" by simp
    from Cons.IH [OF this] n renderMarker_isMarker show ?thesis by simp
  qed
qed

lemma syncDefs_named:
  assumes "arrowsNamed (brushes d) (map shape scs)"
  shows "\<exists>news n'. syncDefs d scs defs n = Inr (defs @ news, n')
     \<and> distinct (map cgKey news) \<and> list_all isMarker news
     \<and> set (map cgKey news)
         = Some ` set (arrowKeys (brushes d) (map shape scs)) - set (map cgKey defs)"
proof -
  from arrowsNamed_required [OF assms]
  have ar: "arrowsResolve (brushes d) scs"
    and rk: "requiredKeys (brushes d) scs = arrowKeys (brushes d) (map shape scs)" by simp_all
  from ar syncDefs_ok [of d scs defs n] obtain defs' n' where
    sd: "syncDefs d scs defs n = Inr (defs', n')" by auto
  from syncDefs_result [OF sd] obtain news where news: "defs' = defs @ news"
    "distinct (map cgKey news)"
    "set (map cgKey news) = Some ` set (requiredKeys (brushes d) scs) - set (map cgKey defs)"
    by blast
  from sd news(1) obtain bs where "appendMarkers (map cgKey defs) bs defs n = (defs @ news, n')"
    by (auto simp add: syncDefs_def split: sum.splits)
  from appendMarkers_markers [OF this] have m: "list_all isMarker news" .
  from sd news m rk show ?thesis by auto
qed

lemma syncDefs_prefix:
  "syncDefs d scs defs n = Inr (defs', n') \<Longrightarrow> prefix defs defs'"
  using syncDefs_result [of d scs defs n defs' n'] by auto

lemma renderSvg_defsEl:
  "defsEl (snd (fst (renderSvg key2pos st doc)))
     = (if Some (fullHashOf (drawable st)) = prevSvgHash (drawable st) then defsEl doc
        else case syncDefs (drawable st) (hashedShapes (drawable st)) (defsEl doc) (nextId doc) of
               Inl e \<Rightarrow> defsEl doc
             | Inr r \<Rightarrow> fst r)"
  by (simp add: renderSvg_def Let_def split: sum.splits prod.splits option.splits)

lemma renderCycles_Cons_defs:
  "defsEl (snd (renderCycles key2pos (st # sts) prev doc))
     = defsEl (snd (renderCycles key2pos sts (Some (fullHashOf (drawable st)))
         (snd (fst (renderSvg key2pos (st\<lparr>drawable := (drawable st)\<lparr>prevSvgHash := prev\<rparr>\<rparr>) doc)))))"
proof -
  let ?st = "st\<lparr>drawable := (drawable st)\<lparr>prevSvgHash := prev\<rparr>\<rparr>"
  obtain st1 doc1 err where r: "renderSvg key2pos ?st doc = ((st1, doc1), err)"
    by (metis surj_pair)
  have "st1 = fst (fst (renderSvg key2pos ?st doc))" by (simp add: r)
  then have p: "prevSvgHash (drawable st1) = Some (fullHashOf (drawable st))"
    by (simp add: renderSvg_state)
  show ?thesis by (simp add: r p)
qed

lemma fullHashOf_brushes [simp]: "fullHashOf (d\<lparr>brushes := bs\<rparr>) = fullHashOf d"
  by (simp add: fullHashOf_def hashedShapes_def arrowDestsOf_def curShape_def)

lemma syncDefs_fails:
  "\<not> arrowsResolve (brushes d) scs \<Longrightarrow> syncDefs d scs defs n = Inl TypeError"
  using collectBrushes_fails [of "brushes d" scs "[]"] by (simp add: syncDefs_def)

lemma renderSvg_throws:
  assumes "Some (fullHashOf (drawable st)) \<noteq> prevSvgHash (drawable st)"
    and "syncDefs (drawable st) (hashedShapes (drawable st)) (defsEl doc) (nextId doc) = Inl e"
  shows "snd (renderSvg key2pos st doc) = Some e"
  using assms by (simp add: renderSvg_def Let_def)

text \<open>
  C2, as amended. Every call of \<^verbatim>\<open>renderSvg\<close>, and every pass of \<^verbatim>\<open>syncDefs\<close> that does not
  throw, leaves the old catalog as a prefix of the new one: no entry is removed or changed.
  When every arrow shape of the pass names a brush that the brush catalog holds, the pass
  does not throw, and what it appends is one marker resource for each key that an arrow
  shape refers to and that no entry carried, and nothing else; the key is the key of the
  brush that the shape names, followed by the line-width override if there is one. Hence
  over any run of cycles whose arrow shapes all name brushes that the catalog of their cycle
  holds, started from a catalog without repeated keys (the empty one, say), the keys of the
  catalog stay pairwise distinct, and they are the keys it started with together with the
  keys that the arrow shapes referred to in the cycles so far that were not
  short-circuited, also those of brushes that have since left the shape set.
\<close>

theorem syncDefs_append_only:
  "prefix (defsEl doc) (defsEl (snd (fst (renderSvg key2pos st doc))))
   \<and> (syncDefs d scs defs n = Inr (defs', n') \<longrightarrow> prefix defs defs')
   \<and> (arrowsNamed (brushes d) (map shape scs)
      \<longrightarrow> (\<exists>news n'. syncDefs d scs defs n = Inr (defs @ news, n')
            \<and> distinct (map cgKey news) \<and> list_all isMarker news
            \<and> set (map cgKey news)
                = Some ` set (arrowKeys (brushes d) (map shape scs)) - set (map cgKey defs)))
   \<and> (distinct (map cgKey (defsEl doc)) \<and> list_all wellNamed sts
      \<longrightarrow> prefix (defsEl doc) (defsEl (snd (renderCycles key2pos sts prev doc)))
        \<and> distinct (map cgKey (defsEl (snd (renderCycles key2pos sts prev doc))))
        \<and> set (map cgKey (defsEl (snd (renderCycles key2pos sts prev doc))))
            = set (map cgKey (defsEl doc)) \<union> Some ` set (cycleKeys sts prev))"
proof -
  have a: "prefix (defsEl doc) (defsEl (snd (fst (renderSvg key2pos st doc))))"
    using renderSvg_defs_step [of key2pos st doc] by auto
  have b: "syncDefs d scs defs n = Inr (defs', n') \<longrightarrow> prefix defs defs'"
    using syncDefs_prefix [of d scs defs n defs' n'] by blast
  have c: "arrowsNamed (brushes d) (map shape scs)
      \<longrightarrow> (\<exists>news n'. syncDefs d scs defs n = Inr (defs @ news, n')
            \<and> distinct (map cgKey news) \<and> list_all isMarker news
            \<and> set (map cgKey news)
                = Some ` set (arrowKeys (brushes d) (map shape scs)) - set (map cgKey defs))"
    using syncDefs_named [of d scs defs n] by blast
  have e: "distinct (map cgKey (defsEl doc)) \<and> list_all wellNamed sts
      \<longrightarrow> prefix (defsEl doc) (defsEl (snd (renderCycles key2pos sts prev doc)))
        \<and> distinct (map cgKey (defsEl (snd (renderCycles key2pos sts prev doc))))
        \<and> set (map cgKey (defsEl (snd (renderCycles key2pos sts prev doc))))
            = set (map cgKey (defsEl doc)) \<union> Some ` set (cycleKeys sts prev)"
    using renderCycles_defs [of doc key2pos sts prev] requestedKeys_cycleKeys [of sts key2pos prev doc]
    by simp
  from a b c e show ?thesis by blast
qed

theorem syncDefs_append_only_witness:
  "prefix (defsEl emptyDoc)
      (defsEl (snd (fst (renderSvg sampleKey2pos (sampleState [] [] None None) emptyDoc))))
   \<and> syncDefs (drawable (withBrushes twoBrushes (sampleState [] [] None None)))
        [hashed (thickArrow ''a1'' ''a8'' 5) ''a1,a8,green,5'', hashed (redArrow ''b1'' ''b8'') ''b1,b8,red'']
        [] 0
       = Inr ([fst (renderMarker (makeCustomBrush green \<lparr>m_lineWidth = Some 5\<rparr>) 0),
               fst (renderMarker red 2)], 4)
   \<and> prefix [] [fst (renderMarker (makeCustomBrush green \<lparr>m_lineWidth = Some 5\<rparr>) 0),
               fst (renderMarker red 2)]
   \<and> arrowsNamed (brushes (drawable (withBrushes twoBrushes (sampleState [] [] None None))))
        (map shape [hashed (thickArrow ''a1'' ''a8'' 5) ''a1,a8,green,5'',
                    hashed (redArrow ''b1'' ''b8'') ''b1,b8,red''])
   \<and> arrowKeys (brushes (drawable (withBrushes twoBrushes (sampleState [] [] None None))))
        (map shape [hashed (thickArrow ''a1'' ''a8'' 5) ''a1,a8,green,5'',
                    hashed (redArrow ''b1'' ''b8'') ''b1,b8,red'']) = [''g5'', ''r'']
   \<and> (\<exists>news n'.
         syncDefs (drawable (withBrushes twoBrushes (sampleState [] [] None None)))
           [hashed (thickArrow ''a1'' ''a8'' 5) ''a1,a8,green,5'', hashed (redArrow ''b1'' ''b8'') ''b1,b8,red'']
           [] 0 = Inr ([] @ news, n')
         \<and> distinct (map cgKey news) \<and> list_all isMarker news
         \<and> set (map cgKey news)
             = Some ` set (arrowKeys (brushes (drawable (withBrushes twoBrushes (sampleState [] [] None None))))
                 (map shape [hashed (thickArrow ''a1'' ''a8'' 5) ''a1,a8,green,5'',
                             hashed (redArrow ''b1'' ''b8'') ''b1,b8,red''])) - set (map cgKey []))
   \<and> distinct (map cgKey (defsEl emptyDoc))
   \<and> list_all wellNamed
        [withBrushes twoBrushes (sampleState [redArrow ''b1'' ''b8''] [] None None),
         withBrushes twoBrushes (sampleState [] [] None None)]
   \<and> cycleKeys
        [withBrushes twoBrushes (sampleState [redArrow ''b1'' ''b8''] [] None None),
         withBrushes twoBrushes (sampleState [] [] None None)] None = [''r'']
   \<and> prefix (defsEl emptyDoc) (defsEl (snd (renderCycles sampleKey2pos
        [withBrushes twoBrushes (sampleState [redArrow ''b1'' ''b8''] [] None None),
         withBrushes twoBrushes (sampleState [] [] None None)] None emptyDoc)))
   \<and> distinct (map cgKey (defsEl (snd (renderCycles sampleKey2pos
        [withBrushes twoBrushes (sampleState [redArrow ''b1'' ''b8''] [] None None),
         withBrushes twoBrushes (sampleState [] [] None None)] None emptyDoc))))
   \<and> set (map cgKey (defsEl (snd (renderCycles sampleKey2pos
        [withBrushes twoBrushes (sampleState [redArrow ''b1'' ''b8''] [] None None),
         withBrushes twoBrushes (sampleState [] [] None None)] None emptyDoc))))
       = set (map cgKey (defsEl emptyDoc)) \<union> Some ` set (cycleKeys
        [withBrushes twoBrushes (sampleState [redArrow ''b1'' ''b8''] [] None None),
         withBrushes twoBrushes (sampleState [] [] None None)] None)"
proof -
  let ?d = "drawable (withBrushes twoBrushes (sampleState [] [] None None))"
  let ?S = "[hashed (thickArrow ''a1'' ''a8'' 5) ''a1,a8,green,5'', hashed (redArrow ''b1'' ''b8'') ''b1,b8,red'']"
  let ?M1 = "fst (renderMarker (makeCustomBrush green \<lparr>m_lineWidth = Some 5\<rparr>) 0)"
  let ?M2 = "fst (renderMarker red 2)"
  let ?sts = "[withBrushes twoBrushes (sampleState [redArrow ''b1'' ''b8''] [] None None),
         withBrushes twoBrushes (sampleState [] [] None None)]"
  note T = syncDefs_append_only [where d = ?d and scs = ?S and defs = "[]" and n = 0
      and defs' = "[?M1, ?M2]" and n' = 4 and doc = emptyDoc and key2pos = sampleKey2pos
      and sts = ?sts and prev = None and st = "sampleState [] [] None None"]
  have key: "b_key (makeCustomBrush green \<lparr>m_lineWidth = Some 5\<rparr>) = ''g5''"
    by (simp add: makeCustomBrush_def green_def optNum_def show_int_def show_nat.simps digit_char_def)
  have bs: "brushes (drawable (withBrushes b st)) = b" for b st by (simp add: withBrushes_def)
  have h1: "syncDefs ?d ?S [] 0 = Inr ([?M1, ?M2], 4)"
    by (simp add: syncDefs_def bs hashed_def thickArrow_def redArrow_def ifTruthy_def lookupBrush_def
        twoBrushes_def Let_def split_def renderMarker_next key red_def numeral_2_eq_2)
  have h2: "arrowsNamed (brushes ?d) (map shape ?S)"
    by (simp add: arrowsNamed_def bs hashed_def thickArrow_def redArrow_def ifTruthy_def twoBrushes_def)
  have h3: "arrowKeys (brushes ?d) (map shape ?S) = [''g5'', ''r'']"
    by (simp add: arrowKeys_def List.map_filter_def arrowKey_def bs hashed_def thickArrow_def
        redArrow_def ifTruthy_def twoBrushes_def overrideText_def green_def red_def
        show_int_def show_nat.simps digit_char_def)
  have h4: "distinct (map cgKey (defsEl emptyDoc))" by (simp add: emptyDoc_def)
  have h5: "list_all wellNamed ?sts"
    by (simp add: wellNamed_def arrowsNamed_def allShapes_def curShape_def optList_def
        withBrushes_def sampleState_def redArrow_def ifTruthy_def twoBrushes_def)
  have f1: "fullHashOf (drawable (sampleState [redArrow ''b1'' ''b8''] [] None None)) = ''b1,b8,red''"
    by (simp add: fullHashOf_def hashedShapes_def arrowDestsOf_def curShape_def sampleState_def
        redArrow_def shapeHash_def shapeHashTokens_def optStr_def optList_def ifTruthy_def andAlso_def
        getOr0_def)
  have f2: "fullHashOf (drawable (sampleState [] [] None None)) = []"
    by (simp add: fullHashOf_def hashedShapes_def arrowDestsOf_def curShape_def sampleState_def
        optList_def)
  have h6: "cycleKeys ?sts None = [''r'']"
    by (simp add: withBrushes_def f1 f2 arrowKeys_def List.map_filter_def arrowKey_def allShapes_def
        curShape_def optList_def sampleState_def redArrow_def ifTruthy_def twoBrushes_def
        overrideText_def red_def)
  show ?thesis using T h1 h2 h3 h4 h5 h6 by blast
qed

text \<open>
  C2 as stated fails: a key that an arrow shape refers to need not reach the catalog. With
  an arrow that names \<^verbatim>\<open>green\<close> ahead of an arrow whose brush \<^verbatim>\<open>red\<close> the catalog lacks,
  \<^verbatim>\<open>syncDefs\<close> throws before it appends anything; the snapshot is already written, so the next
  cycle on the same shapes is short-circuited and the catalog stays empty. And when the key
  of the brush \<^verbatim>\<open>green\<close> changes from \<^verbatim>\<open>g\<close> to \<^verbatim>\<open>g2\<close> between two cycles on the same shapes, the
  second cycle is short-circuited and the catalog holds the marker \<^verbatim>\<open>g\<close> only.
\<close>

theorem syncDefs_misses_keys:
  "arrowKey sampleBrushes (arrow ''a1'' ''a8'') = Some ''g''
   \<and> snd (renderSvg sampleKey2pos
        (sampleState [arrow ''a1'' ''a8'', redArrow ''b1'' ''b8''] [] None None) emptyDoc) = Some TypeError
   \<and> defsEl (snd (renderCycles sampleKey2pos
        [sampleState [arrow ''a1'' ''a8'', redArrow ''b1'' ''b8''] [] None None,
         sampleState [arrow ''a1'' ''a8'', redArrow ''b1'' ''b8''] [] None None] None emptyDoc)) = []
   \<and> arrowKey rekeyed (arrow ''a1'' ''a8'') = Some ''g2''
   \<and> map cgKey (defsEl (snd (renderCycles sampleKey2pos
        [sampleState [arrow ''a1'' ''a8''] [] None None,
         withBrushes rekeyed (sampleState [arrow ''a1'' ''a8''] [] None None)] None emptyDoc)))
       = [Some ''g'']"
proof -
  let ?S1 = "sampleState [arrow ''a1'' ''a8'', redArrow ''b1'' ''b8''] [] None None"
  let ?S2 = "sampleState [arrow ''a1'' ''a8''] [] None None"
  have a1: "arrowKey sampleBrushes (arrow ''a1'' ''a8'') = Some ''g''"
    by (simp add: arrowKey_def arrow_def ifTruthy_def sampleBrushes_def green_def overrideText_def)
  have nr: "\<not> arrowsResolve (brushes (drawable ?S1)) (hashedShapes (drawable ?S1))"
    by (simp add: arrowsResolve_def hashedShapes_def arrowDestsOf_def curShape_def optList_def
        sampleState_def arrow_def redArrow_def ifTruthy_def lookupBrush_def sampleBrushes_def Let_def)
  have sd1: "syncDefs (drawable ?S1) (hashedShapes (drawable ?S1)) [] 0 = Inl TypeError"
    using nr by (rule syncDefs_fails)
  have p1: "prevSvgHash (drawable ?S1) = None" by (simp add: sampleState_def)
  have a2: "snd (renderSvg sampleKey2pos ?S1 emptyDoc) = Some TypeError"
    by (rule renderSvg_throws) (simp_all add: p1 sd1 emptyDoc_def)
  have a3: "defsEl (snd (renderCycles sampleKey2pos [?S1, ?S1] None emptyDoc)) = []"
    by (simp only: renderCycles_Cons_defs)
       (simp add: renderSvg_defsEl sd1 emptyDoc_def)
  have b1: "arrowKey rekeyed (arrow ''a1'' ''a8'') = Some ''g2''"
    by (simp add: arrowKey_def arrow_def ifTruthy_def rekeyed_def green_def overrideText_def)
  have sd2: "syncDefs (drawable ?S2) (hashedShapes (drawable ?S2)) [] 0
      = Inr ([fst (renderMarker green 0)], 2)"
    by (simp add: syncDefs_def hashedShapes_def arrowDestsOf_def curShape_def optList_def
        sampleState_def arrow_def ifTruthy_def lookupBrush_def sampleBrushes_def Let_def
        split_def renderMarker_next)
  have fh: "fullHashOf (drawable (withBrushes rekeyed ?S2)) = fullHashOf (drawable ?S2)"
    by (simp add: withBrushes_def)
  have k: "cgKey (fst (renderMarker green 0)) = Some ''g''"
    using renderMarker_fresh [of green 0] by (simp add: green_def)
  have b2: "map cgKey (defsEl (snd (renderCycles sampleKey2pos
        [?S2, withBrushes rekeyed ?S2] None emptyDoc))) = [Some ''g'']"
    by (simp only: renderCycles_Cons_defs)
       (simp add: renderSvg_defsEl sd2 emptyDoc_def fh k)
  from a1 a2 a3 b1 b2 show ?thesis by blast
qed

end
